theory Spec2Isabelle
  imports Complex_Main "HOL-Library.Word"
begin

section \<open>The serial protocol engine of deej-with-buttons (pkg/deej/serial.go)\<close>

text \<open>
  The development follows \<^verbatim>\<open>pkg/deej/serial.go\<close>. Go strings are byte sequences and are
  modelled as \<^typ>\<open>string\<close>; Go's \<^verbatim>\<open>int\<close> is \<^typ>\<open>int\<close> (the only integers that occur
  are parsed from at most four digits, or are the sentinel \<open>-1\<close>); a panic is a value of the
  type \<open>panic\<close> returned on the left of a sum.
\<close>

subsection \<open>Library functions of Go used by the handlers\<close>

definition CRLF :: string where
  "CRLF = [CHR 0x0D, CHR 0x0A]"

text \<open>\<^verbatim>\<open>strings.HasSuffix\<close> and \<^verbatim>\<open>strings.TrimSuffix\<close>.\<close>

definition HasSuffix :: "string \<Rightarrow> string \<Rightarrow> bool" where
  "HasSuffix s suffix =
     (length suffix \<le> length s \<and> drop (length s - length suffix) s = suffix)"

definition TrimSuffix :: "string \<Rightarrow> string \<Rightarrow> string" where
  "TrimSuffix s suffix =
     (if HasSuffix s suffix then take (length s - length suffix) s else s)"

text \<open>\<^verbatim>\<open>strings.Trim\<close>: all leading and trailing characters of the cutset are removed.\<close>

definition Trim :: "string \<Rightarrow> string \<Rightarrow> string" where
  "Trim s cutset =
     rev (dropWhile (\<lambda>c. c \<in> set cutset) (rev (dropWhile (\<lambda>c. c \<in> set cutset) s)))"

text \<open>
  \<^verbatim>\<open>strings.Split\<close> with a non-empty separator: the pieces between the leftmost,
  non-overlapping occurrences of the separator; a string without the separator (the empty
  string too) is its own single piece. With an empty separator Go cuts after every
  character.
\<close>

function splitFrom :: "string \<Rightarrow> string \<Rightarrow> string \<Rightarrow> string list" where
  "splitFrom sep piece [] = [rev piece]"
| "splitFrom sep piece (c # cs) =
     (if sep \<noteq> [] \<and> take (length sep) (c # cs) = sep
      then rev piece # splitFrom sep [] (drop (length sep) (c # cs))
      else splitFrom sep (c # piece) cs)"
  by pat_completeness auto
termination
  by (relation "measure (\<lambda>(sep, piece, s). length s)") auto

definition Split :: "string \<Rightarrow> string \<Rightarrow> string list" where
  "Split s sep = (if sep = [] then map (\<lambda>c. [c]) s else splitFrom sep [] s)"

text \<open>
  \<^verbatim>\<open>strconv.Atoi\<close>: an optional sign, then one or more decimal digits. A string of any
  other shape gives \<open>(0, syntax error)\<close>; a value outside the 64-bit range gives the
  nearest bound and a range error.
\<close>

datatype NumError = ErrSyntax | ErrRange

definition isDigit :: "char \<Rightarrow> bool" where
  "isDigit c = (48 \<le> (of_char c :: nat) \<and> (of_char c :: nat) \<le> 57)"

definition digitVal :: "char \<Rightarrow> int" where
  "digitVal c = int (of_char c) - 48"

definition decimal :: "string \<Rightarrow> int" where
  "decimal ds = foldl (\<lambda>n c. n * 10 + digitVal c) 0 ds"

definition Atoi :: "string \<Rightarrow> int \<times> NumError option" where
  "Atoi s =
     (let neg = (s \<noteq> [] \<and> hd s = CHR ''-'');
          ds = (if s \<noteq> [] \<and> (hd s = CHR ''-'' \<or> hd s = CHR ''+'') then tl s else s)
      in if ds = [] \<or> \<not> list_all isDigit ds then (0, Some ErrSyntax)
         else let v = (if neg then - decimal ds else decimal ds)
              in if v > 2 ^ 63 - 1 then (2 ^ 63 - 1, Some ErrRange)
                 else if v < - (2 ^ 63) then (- (2 ^ 63), Some ErrRange)
                 else (v, None))"

subsection \<open>Regular expressions\<close>

text \<open>
  The two line patterns are regular expressions. \<open>regex\<close> has the constructs they use;
  \<open>denote\<close> is the set of strings a pattern stands for, and \<open>MatchString\<close> decides
  membership by derivatives. Both patterns are anchored with \<^verbatim>\<open>^\<close> and \<^verbatim>\<open>$\<close> (end of
  text, no multi-line flag), so a line matches when the whole line is in the language.
  \<^verbatim>\<open>\d\<close> is an ASCII digit.
\<close>

datatype regex =
    Never
  | Empty
  | Digit
  | Lit char
  | Or regex regex
  | Then regex regex
  | Many regex

fun repeat :: "regex \<Rightarrow> nat \<Rightarrow> nat \<Rightarrow> regex" where
  "repeat r 0 0 = Empty"
| "repeat r 0 (Suc n) = Or Empty (Then r (repeat r 0 n))"
| "repeat r (Suc m) 0 = Never"
| "repeat r (Suc m) (Suc n) = Then r (repeat r m n)"

fun literal :: "string \<Rightarrow> regex" where
  "literal [] = Empty"
| "literal (c # cs) = Then (Lit c) (literal cs)"

fun nullable :: "regex \<Rightarrow> bool" where
  "nullable Never = False"
| "nullable Empty = True"
| "nullable Digit = False"
| "nullable (Lit c) = False"
| "nullable (Or r s) = (nullable r \<or> nullable s)"
| "nullable (Then r s) = (nullable r \<and> nullable s)"
| "nullable (Many r) = True"

fun deriv :: "char \<Rightarrow> regex \<Rightarrow> regex" where
  "deriv c Never = Never"
| "deriv c Empty = Never"
| "deriv c Digit = (if isDigit c then Empty else Never)"
| "deriv c (Lit d) = (if c = d then Empty else Never)"
| "deriv c (Or r s) = Or (deriv c r) (deriv c s)"
| "deriv c (Then r s) =
     (if nullable r then Or (Then (deriv c r) s) (deriv c s) else Then (deriv c r) s)"
| "deriv c (Many r) = Then (deriv c r) (Many r)"

fun MatchString :: "regex \<Rightarrow> string \<Rightarrow> bool" where
  "MatchString r [] = nullable r"
| "MatchString r (c # cs) = MatchString (deriv c r) cs"

definition conc :: "string set \<Rightarrow> string set \<Rightarrow> string set" where
  "conc A B = {u @ v | u v. u \<in> A \<and> v \<in> B}"

inductive_set many :: "string set \<Rightarrow> string set" for A :: "string set" where
  many_nil: "[] \<in> many A"
| many_app: "u \<in> A \<Longrightarrow> v \<in> many A \<Longrightarrow> u @ v \<in> many A"

fun denote :: "regex \<Rightarrow> string set" where
  "denote Never = {}"
| "denote Empty = {[]}"
| "denote Digit = {[c] | c. isDigit c}"
| "denote (Lit d) = {[d]}"
| "denote (Or r s) = denote r \<union> denote s"
| "denote (Then r s) = conc (denote r) (denote s)"
| "denote (Many r) = many (denote r)"

text \<open>
  \<^verbatim>\<open>^\d{1,4}(\|\d{1,4})*\r\n$\<close> and \<^verbatim>\<open>^~\d(\~\d)*~\r\n$\<close>.
\<close>

definition expectedLinePattern :: regex where
  "expectedLinePattern =
     Then (repeat Digit 1 4)
       (Then (Many (Then (Lit (CHR ''|'')) (repeat Digit 1 4))) (literal CRLF))"

definition buttonLinePattern :: regex where
  "buttonLinePattern =
     Then (Lit (CHR ''~''))
       (Then Digit
         (Then (Many (Then (Lit (CHR ''~'')) Digit))
           (Then (Lit (CHR ''~'')) (literal CRLF))))"

subsection \<open>Data model\<close>

record SliderMoveEvent =
  SliderID :: nat
  PercentValue :: rat

record ButtonPressEvent =
  ButtonID :: nat
  PreviousValue :: int
  ButtonValue :: int

text \<open>
  \<^verbatim>\<open>serial.OpenOptions\<close> and the connection settings of the configuration. The baud rate of
  the configuration is a Go \<^verbatim>\<open>int\<close> (a 64-bit two's complement value, read with \<open>sint\<close>),
  the one of the open options a \<^verbatim>\<open>uint\<close>.
\<close>

record OpenOptions =
  PortName :: string
  OpenBaudRate :: "64 word"
  DataBits :: nat
  StopBits :: nat
  MinimumReadSize :: nat

record ConnectionInfo =
  COMPort :: string
  BaudRate :: "64 word"

text \<open>
  Modelled from the spec: the declaration of the configuration is not under src/. The noise
  reduction level is the enumeration {low, default, high} of the spec.
\<close>

datatype NoiseLevel = NoiseLow | NoiseDefault | NoiseHigh

record Config =
  InvertSliders :: bool
  NoiseReductionLevel :: NoiseLevel
  ButtonMapping :: "int \<rightharpoonup> string list"
  ConnectionInfo :: ConnectionInfo

text \<open>
  The fields of \<^verbatim>\<open>SerialIO\<close> that the handlers read and write. A subscriber channel is
  modelled by the sequence of events sent to it.
\<close>

record SerialIO =
  connected :: bool
  connOptions :: OpenOptions
  lastKnownNumSliders :: nat
  currentSliderPercentValues :: "rat list"
  lastKnownNumButtons :: nat
  currentButtonValues :: "int list"
  sliderMoveConsumers :: "SliderMoveEvent list list"

text \<open>
  A panic: \<^verbatim>\<open>panic(err)\<close> of \<^verbatim>\<open>pressedButton\<close> with the error of the key-input library,
  or the run-time panic of a slice index out of range. Nothing in the package recovers.
\<close>

datatype panic = KeyInputPanic string | IndexOutOfRange

definition NewSerialIO :: SerialIO where
  "NewSerialIO =
     \<lparr>connected = False,
      connOptions = \<lparr>PortName = [], OpenBaudRate = 0, DataBits = 0, StopBits = 0,
                     MinimumReadSize = 0\<rparr>,
      lastKnownNumSliders = 0,
      currentSliderPercentValues = [],
      lastKnownNumButtons = 0,
      currentButtonValues = [],
      sliderMoveConsumers = []\<rparr>"

definition SubscribeToSliderMoveEvents :: "SerialIO \<Rightarrow> SerialIO" where
  "SubscribeToSliderMoveEvents sio =
     sio\<lparr>sliderMoveConsumers := sliderMoveConsumers sio @ [[]]\<rparr>"

subsection \<open>The button action trigger\<close>

text \<open>
  The key-input library (keybd\_event) is outside the repository. A key bonding is the set
  of keys and modifier flags that \<^verbatim>\<open>pressedButton\<close> sets; what the library answers to
  \<^verbatim>\<open>NewKeyBonding\<close> and to \<^verbatim>\<open>Launching\<close> (an error or none) is a parameter.
\<close>

datatype Key =
    VK_MEDIA_NEXT_TRACK | VK_MEDIA_PREV_TRACK | VK_MEDIA_STOP | VK_MEDIA_PLAY_PAUSE
  | VK_LAUNCH_MEDIA_SELECT | VK_VOLUME_MUTE | VK_VOLUME_DOWN | VK_VOLUME_UP
  | VK_BROWSER_BACK | VK_BROWSER_FORWARD | VK_BROWSER_REFRESH | VK_BROWSER_STOP
  | VK_BROWSER_SEARCH | VK_BROWSER_FAVORITES | VK_BROWSER_HOME | VK_F5 | VK_K

record KeyBonding =
  keys :: "Key list"
  hasCTRL :: bool
  hasSuper :: bool
  hasALTGR :: bool

record Keybd =
  NewKeyBonding :: "string option"
  Launching :: "KeyBonding \<Rightarrow> string option"

definition KEY_MAPS :: "string \<rightharpoonup> Key" where
  "KEY_MAPS = map_of
     [(''VK_MEDIA_NEXT_TRACK'', VK_MEDIA_NEXT_TRACK),
      (''VK_MEDIA_PREV_TRACK'', VK_MEDIA_PREV_TRACK),
      (''VK_MEDIA_STOP'', VK_MEDIA_STOP),
      (''VK_MEDIA_PLAY_PAUSE'', VK_MEDIA_PLAY_PAUSE),
      (''VK_LAUNCH_MEDIA_SELECT'', VK_LAUNCH_MEDIA_SELECT),
      (''VK_VOLUME_MUTE'', VK_VOLUME_MUTE),
      (''VK_VOLUME_DOWN'', VK_VOLUME_DOWN),
      (''VK_VOLUME_UP'', VK_VOLUME_UP),
      (''VK_BROWSER_BACK'', VK_BROWSER_BACK),
      (''VK_BROWSER_FORWARD'', VK_BROWSER_FORWARD),
      (''VK_BROWSER_REFRESH'', VK_BROWSER_REFRESH),
      (''VK_BROWSER_STOP'', VK_BROWSER_STOP),
      (''VK_BROWSER_SEARCH'', VK_BROWSER_SEARCH),
      (''VK_BROWSER_FAVORITES'', VK_BROWSER_FAVORITES),
      (''VK_BROWSER_HOME'', VK_BROWSER_HOME)]"

definition kbKeySimple :: "KeyBonding \<Rightarrow> string \<Rightarrow> KeyBonding \<times> string option" where
  "kbKeySimple kb key =
     (case KEY_MAPS key of
        None \<Rightarrow> (kb, Some ''Key not found'')
      | Some key_data \<Rightarrow> (kb\<lparr>keys := [key_data]\<rparr>, None))"

text \<open>
  The loop over the tokens configured for the button: the key bonding after the tokens, and
  the tokens logged as invalid (index and token).
\<close>

fun setKeys :: "nat \<Rightarrow> string list \<Rightarrow> KeyBonding \<Rightarrow> (nat \<times> string) list
    \<Rightarrow> KeyBonding \<times> (nat \<times> string) list" where
  "setKeys conf_ind [] kb invalid = (kb, invalid)"
| "setKeys conf_ind (conf_key # rest) kb invalid =
     (if conf_key = ''FORCE_REFRESH''
      then setKeys (Suc conf_ind) rest (kb\<lparr>keys := [VK_F5], hasCTRL := True\<rparr>) invalid
      else if conf_key = ''WIN_MIC_MUTE_TOGGLE''
      then setKeys (Suc conf_ind) rest
             (kb\<lparr>keys := [VK_K], hasSuper := True, hasALTGR := True\<rparr>) invalid
      else (case kbKeySimple kb conf_key of
              (kb', None) \<Rightarrow> setKeys (Suc conf_ind) rest kb' invalid
            | (kb', Some key_err) \<Rightarrow>
                setKeys (Suc conf_ind) rest kb' (invalid @ [(conf_ind, conf_key)])))"

definition pressedButton :: "Keybd \<Rightarrow> Config \<Rightarrow> ButtonPressEvent
    \<Rightarrow> panic + (KeyBonding \<times> (nat \<times> string) list)" where
  "pressedButton kbd cfg buttonEvent =
     (let bindex = int (ButtonID buttonEvent) in
      case NewKeyBonding kbd of
        Some err \<Rightarrow> Inl (KeyInputPanic err)
      | None \<Rightarrow>
          (let tokens = (case ButtonMapping cfg bindex of None \<Rightarrow> [] | Some ts \<Rightarrow> ts);
               (kb, invalid) = setKeys 0 tokens
                  \<lparr>keys = [], hasCTRL = False, hasSuper = False, hasALTGR = False\<rparr> []
           in case Launching kbd kb of
                Some err \<Rightarrow> Inl (KeyInputPanic err)
              | None \<Rightarrow> Inr (kb, invalid)))"

subsection \<open>Button frames\<close>

text \<open>
  The outcome of the loop over the fields of a frame: the early \<^verbatim>\<open>return\<close> of the
  first-field guard, or the end of the loop with the events collected. Both carry the
  stored values as the loop left them.
\<close>

datatype ('v, 'e) scan = Ignored "'v list" | Scanned "'v list" "'e list"

fun buttonLoop :: "nat \<Rightarrow> string list \<Rightarrow> int list \<Rightarrow> ButtonPressEvent list
    \<Rightarrow> panic + (int, ButtonPressEvent) scan" where
  "buttonLoop sliderIdx [] vals moveEvents = Inr (Scanned vals moveEvents)"
| "buttonLoop sliderIdx (stringValue # rest) vals moveEvents =
     (let number = fst (Atoi stringValue) in
      if sliderIdx = 0 \<and> number > 9 then Inr (Ignored vals)
      else if \<not> sliderIdx < length vals then Inl IndexOutOfRange
      else if vals ! sliderIdx \<noteq> number
      then buttonLoop (Suc sliderIdx) rest (vals[sliderIdx := number])
             (moveEvents @ [\<lparr>ButtonID = sliderIdx, PreviousValue = vals ! sliderIdx,
                              ButtonValue = number\<rparr>])
      else buttonLoop (Suc sliderIdx) rest vals moveEvents)"

text \<open>
  The second loop: the trigger is called on each rising edge, in order. What a call does is
  seen through the key-input library: the result of the loop is, for each call that
  returned, the event it was called on with the key bonding it launched and the tokens it
  logged as invalid. A panic of the trigger ends the loop.
\<close>

type_synonym Pressed = "ButtonPressEvent \<times> KeyBonding \<times> (nat \<times> string) list"

fun pressAll :: "Keybd \<Rightarrow> Config \<Rightarrow> ButtonPressEvent list \<Rightarrow> panic + Pressed list" where
  "pressAll kbd cfg [] = Inr []"
| "pressAll kbd cfg (moveEvent # rest) =
     (if PreviousValue moveEvent = 0 \<and> ButtonValue moveEvent \<noteq> 0
      then (case pressedButton kbd cfg moveEvent of
              Inl p \<Rightarrow> Inl p
            | Inr launched \<Rightarrow>
                (case pressAll kbd cfg rest of
                   Inl p \<Rightarrow> Inl p
                 | Inr pressed \<Rightarrow> Inr ((moveEvent, launched) # pressed)))
      else pressAll kbd cfg rest)"

definition buttonFields :: "string \<Rightarrow> string list" where
  "buttonFields line =
     Split (Trim (TrimSuffix (TrimSuffix line CRLF) ''~'') ''~'') ''~''"

definition handleButtons :: "Keybd \<Rightarrow> Config \<Rightarrow> string \<Rightarrow> SerialIO
    \<Rightarrow> panic + (SerialIO \<times> Pressed list)" where
  "handleButtons kbd cfg line sio =
     (let splitLine = buttonFields line;
          numSliders = length splitLine;
          sio1 = (if numSliders \<noteq> lastKnownNumButtons sio
                  then sio\<lparr>lastKnownNumButtons := numSliders,
                           currentButtonValues := replicate numSliders (- 1)\<rparr>
                  else sio)
      in case buttonLoop 0 splitLine (currentButtonValues sio1) [] of
           Inl p \<Rightarrow> Inl p
         | Inr (Ignored vals) \<Rightarrow> Inr (sio1\<lparr>currentButtonValues := vals\<rparr>, [])
         | Inr (Scanned vals moveEvents) \<Rightarrow>
             (case pressAll kbd cfg moveEvents of
                Inl p \<Rightarrow> Inl p
              | Inr pressed \<Rightarrow> Inr (sio1\<lparr>currentButtonValues := vals\<rparr>, pressed)))"

subsection \<open>Slider frames\<close>

text \<open>
  Slider scalars are \<^verbatim>\<open>float32\<close> in the source. They are modelled as rationals: every
  \<^verbatim>\<open>float32\<close> is one, and the values kept are the two-decimal values of the spec, taken
  exactly. The rounding of \<^verbatim>\<open>float32\<close> arithmetic is not modelled.
\<close>

definition unset :: rat where
  "unset = - 1"

text \<open>
  Modelled from the spec: \<^verbatim>\<open>util.NormalizeScalar\<close> is not under src/. The spec (4.2):
  normalize the raw reading to [0,1] (divide by 1023, clamp, round to two-decimal
  precision). The division is in \<^verbatim>\<open>handleLine\<close>; clamping and rounding are this function.
\<close>

definition NormalizeScalar :: "rat \<Rightarrow> rat" where
  "NormalizeScalar v = of_int (round (min 1 (max 0 v) * 100)) / 100"

text \<open>
  Modelled from the spec: \<^verbatim>\<open>util.SignificantlyDifferent\<close> is not under src/. The spec
  (4.2): a change if the absolute difference exceeds the epsilon of the configured noise
  level, or the state was unset. The spec gives no epsilon values: the table \<open>eps\<close> is a
  parameter.
\<close>

definition SignificantlyDifferent :: "(NoiseLevel \<Rightarrow> rat) \<Rightarrow> rat \<Rightarrow> rat \<Rightarrow> NoiseLevel \<Rightarrow> bool" where
  "SignificantlyDifferent eps old new level = (old = unset \<or> \<bar>old - new\<bar> > eps level)"

definition normalized :: "Config \<Rightarrow> int \<Rightarrow> rat" where
  "normalized cfg number =
     (let dirtyFloat = of_int number / 1023;
          normalizedScalar = NormalizeScalar dirtyFloat
      in if InvertSliders cfg then 1 - normalizedScalar else normalizedScalar)"

fun sliderLoop :: "(NoiseLevel \<Rightarrow> rat) \<Rightarrow> Config \<Rightarrow> nat \<Rightarrow> string list \<Rightarrow> rat list
    \<Rightarrow> SliderMoveEvent list \<Rightarrow> panic + (rat, SliderMoveEvent) scan" where
  "sliderLoop eps cfg sliderIdx [] vals moveEvents = Inr (Scanned vals moveEvents)"
| "sliderLoop eps cfg sliderIdx (stringValue # rest) vals moveEvents =
     (let number = fst (Atoi stringValue) in
      if sliderIdx = 0 \<and> number > 1023 then Inr (Ignored vals)
      else let normalizedScalar = normalized cfg number in
        if \<not> sliderIdx < length vals then Inl IndexOutOfRange
        else if SignificantlyDifferent eps (vals ! sliderIdx) normalizedScalar
                  (NoiseReductionLevel cfg)
        then sliderLoop eps cfg (Suc sliderIdx) rest (vals[sliderIdx := normalizedScalar])
               (moveEvents @ [\<lparr>SliderID = sliderIdx, PercentValue = normalizedScalar\<rparr>])
        else sliderLoop eps cfg (Suc sliderIdx) rest vals moveEvents)"

definition sliderFields :: "string \<Rightarrow> string list" where
  "sliderFields line = Split (TrimSuffix line CRLF) ''|''"

text \<open>
  \<^verbatim>\<open>handleLine\<close>: the new state, the slider events of the frame (sent to every
  subscriber when there are any) and the calls of the trigger that the frame made.
\<close>

definition handleLine :: "(NoiseLevel \<Rightarrow> rat) \<Rightarrow> Keybd \<Rightarrow> Config \<Rightarrow> string \<Rightarrow> SerialIO
    \<Rightarrow> panic + (SerialIO \<times> SliderMoveEvent list \<times> Pressed list)" where
  "handleLine eps kbd cfg line sio =
     (if MatchString buttonLinePattern line
      then (case handleButtons kbd cfg line sio of
              Inl p \<Rightarrow> Inl p
            | Inr (sio', pressed) \<Rightarrow> Inr (sio', [], pressed))
      else if \<not> MatchString expectedLinePattern line then Inr (sio, [], [])
      else
        (let splitLine = sliderFields line;
             numSliders = length splitLine;
             sio1 = (if numSliders \<noteq> lastKnownNumSliders sio
                     then sio\<lparr>lastKnownNumSliders := numSliders,
                              currentSliderPercentValues := replicate numSliders (- 1)\<rparr>
                     else sio)
         in case sliderLoop eps cfg 0 splitLine (currentSliderPercentValues sio1) [] of
              Inl p \<Rightarrow> Inl p
            | Inr (Ignored vals) \<Rightarrow> Inr (sio1\<lparr>currentSliderPercentValues := vals\<rparr>, [], [])
            | Inr (Scanned vals moveEvents) \<Rightarrow>
                Inr (sio1\<lparr>currentSliderPercentValues := vals,
                          sliderMoveConsumers :=
                            (if length moveEvents > 0
                             then map (\<lambda>consumer. consumer @ moveEvents)
                                    (sliderMoveConsumers sio1)
                             else sliderMoveConsumers sio1)\<rparr>,
                     moveEvents, [])))"

text \<open>
  The dispatcher loop of \<^verbatim>\<open>Start\<close> on a sequence of lines read from the link: each line is
  handled in turn, and a panic of a handler ends the loop (and the process).
\<close>

fun handleLines :: "(NoiseLevel \<Rightarrow> rat) \<Rightarrow> Keybd \<Rightarrow> Config \<Rightarrow> string list \<Rightarrow> SerialIO
    \<Rightarrow> panic + SerialIO" where
  "handleLines eps kbd cfg [] sio = Inr sio"
| "handleLines eps kbd cfg (line # rest) sio =
     (case handleLine eps kbd cfg line sio of
        Inl p \<Rightarrow> Inl p
      | Inr (sio', _) \<Rightarrow> handleLines eps kbd cfg rest sio')"

subsection \<open>Connection life cycle and configuration reload\<close>

text \<open>
  What the connection functions do beyond the fields of \<^verbatim>\<open>SerialIO\<close> is recorded as a
  list of effects, in order: the messages they log (level and message), the send on
  \<^verbatim>\<open>stopChannel\<close>, \<^verbatim>\<open>conn.Close()\<close> and \<^verbatim>\<open>serial.Open\<close> with its options. Whether the
  platform is Linux and what \<^verbatim>\<open>serial.Open\<close> and \<^verbatim>\<open>conn.Close()\<close> answer are parameters.
\<close>

datatype Level = Debug | Info | Warn

datatype Effect =
    Logged Level string
  | StopSignal
  | ConnClose
  | SerialOpen OpenOptions

record Platform =
  Linux :: bool
  serialOpen :: "OpenOptions \<Rightarrow> string option"
  connClose :: "string option"





definition close :: "Platform \<Rightarrow> SerialIO \<Rightarrow> Effect list \<times> SerialIO" where
  "close pf sio =
     (ConnClose #
        (case connClose pf of
           Some err \<Rightarrow> [Logged Warn ''Failed to close serial connection'']
         | None \<Rightarrow> [Logged Debug ''Serial connection closed'']),
      sio\<lparr>connected := False\<rparr>)"


definition resetCounts :: "SerialIO \<Rightarrow> SerialIO" where
  "resetCounts sio = sio\<lparr>lastKnownNumSliders := 0, lastKnownNumButtons := 0\<rparr>"

subsection \<open>The frames of the firmware and notions used in the statements\<close>

text \<open>
  \<^verbatim>\<open>sendSliderValues\<close> of the firmware (deej-buttons.ino) builds the button line from a
  tilde, then each value followed by a tilde; \<^verbatim>\<open>Serial.println\<close> ends the line with CR LF.
  Here the values are given as their characters.
\<close>

definition builtButtonString :: "string \<Rightarrow> string" where
  "builtButtonString bs = ''~'' @ concat (map (\<lambda>b. [b, CHR ''~'']) bs) @ CRLF"

text \<open>The integers parsed from the fields of a button line and of a slider line.\<close>

definition buttonValues :: "string \<Rightarrow> int list" where
  "buttonValues line = map (\<lambda>stringValue. fst (Atoi stringValue)) (buttonFields line)"

definition sliderValues :: "string \<Rightarrow> int list" where
  "sliderValues line = map (\<lambda>stringValue. fst (Atoi stringValue)) (sliderFields line)"

text \<open>
  The stored values that a frame of \<open>n\<close> channels is compared with: the remembered ones,
  or \<open>n\<close> unset values when the channel count differs from the remembered count.
\<close>

definition buttonsCompared :: "SerialIO \<Rightarrow> nat \<Rightarrow> int list" where
  "buttonsCompared sio n =
     (if n \<noteq> lastKnownNumButtons sio then replicate n (- 1) else currentButtonValues sio)"

definition slidersCompared :: "SerialIO \<Rightarrow> nat \<Rightarrow> rat list" where
  "slidersCompared sio n =
     (if n \<noteq> lastKnownNumSliders sio then replicate n unset
      else currentSliderPercentValues sio)"

text \<open>
  The rising edges of a button frame: the channels whose compared value is 0 and whose new
  value is not 0, as events, in channel order.
\<close>

definition risingEdges :: "SerialIO \<Rightarrow> string \<Rightarrow> ButtonPressEvent list" where
  "risingEdges sio line =
     (let new = buttonValues line; old = buttonsCompared sio (length new)
      in map (\<lambda>i. \<lparr>ButtonID = i, PreviousValue = 0, ButtonValue = new ! i\<rparr>)
           (filter (\<lambda>i. old ! i = 0 \<and> new ! i \<noteq> 0) [0..<length new]))"

text \<open>
  The rising edges between stored values and new values: the channels whose stored value
  is 0 and whose new value is not 0, as events, in channel order.
\<close>

definition edgesOf :: "int list \<Rightarrow> int list \<Rightarrow> ButtonPressEvent list" where
  "edgesOf old new =
     map (\<lambda>i. \<lparr>ButtonID = i, PreviousValue = 0, ButtonValue = new ! i\<rparr>)
       (filter (\<lambda>i. old ! i = 0 \<and> new ! i \<noteq> 0) [0..<length new])"

text \<open>
  A remembered channel count is 0 (initially and after a reload) or the length of the
  stored values: the states that \<^verbatim>\<open>NewSerialIO\<close>, the handlers and the reset produce.
\<close>

definition slidersTracked :: "SerialIO \<Rightarrow> bool" where
  "slidersTracked sio =
     (lastKnownNumSliders sio = 0
      \<or> lastKnownNumSliders sio = length (currentSliderPercentValues sio))"

definition buttonsTracked :: "SerialIO \<Rightarrow> bool" where
  "buttonsTracked sio =
     (lastKnownNumButtons sio = 0
      \<or> lastKnownNumButtons sio = length (currentButtonValues sio))"







text \<open>Every stored slider value is the unset sentinel or lies in [0, 1].\<close>

definition sliderValuesInRange :: "SerialIO \<Rightarrow> bool" where
  "sliderValuesInRange sio =
     list_all (\<lambda>v. v = unset \<or> (0 \<le> v \<and> v \<le> 1)) (currentSliderPercentValues sio)"

text \<open>
  Sample surroundings for the examples: the configuration of the repository's
  \<^verbatim>\<open>config.yaml\<close>, a threshold table, a key-input library that works and two that fail.
\<close>

definition sampleConfig :: Config where
  "sampleConfig =
     \<lparr>InvertSliders = True,
      NoiseReductionLevel = NoiseHigh,
      ButtonMapping = map_of
        [(3, [''VK_MEDIA_PLAY_PAUSE'']), (4, [''VK_MEDIA_NEXT_TRACK'']),
         (5, [''WIN_MIC_MUTE_TOGGLE'']), (9, [''VK_VOLUME_MUTE'']),
         (10, [''VK_LAUNCH_MEDIA_SELECT'']), (11, [''FORCE_REFRESH''])],
      ConnectionInfo = \<lparr>COMPort = ''COM6'', BaudRate = 9600\<rparr>\<rparr>"

definition sampleEps :: "NoiseLevel \<Rightarrow> rat" where
  "sampleEps level =
     (case level of NoiseLow \<Rightarrow> 3 / 200 | NoiseDefault \<Rightarrow> 1 / 40 | NoiseHigh \<Rightarrow> 7 / 200)"

definition workingKeybd :: Keybd where
  "workingKeybd = \<lparr>NewKeyBonding = None, Launching = (\<lambda>kb. None)\<rparr>"




section \<open>Properties\<close>

subsection \<open>The matcher decides the language of a pattern\<close>

lemma conc_iff: "w \<in> conc A B \<longleftrightarrow> (\<exists>u v. w = u @ v \<and> u \<in> A \<and> v \<in> B)"
  by (auto simp: conc_def)

lemma nullable_denote: "nullable r \<longleftrightarrow> [] \<in> denote r"
  by (induction r) (auto simp: conc_iff intro: many.many_nil)

lemma Cons_in_conc:
  "c # w \<in> conc A B \<longleftrightarrow>
     (\<exists>u v. w = u @ v \<and> c # u \<in> A \<and> v \<in> B) \<or> ([] \<in> A \<and> c # w \<in> B)"
  by (auto simp: conc_iff Cons_eq_append_conv)

lemma Cons_in_many:
  "c # w \<in> many A \<longleftrightarrow> (\<exists>u v. w = u @ v \<and> c # u \<in> A \<and> v \<in> many A)"
proof
  assume "c # w \<in> many A"
  then show "\<exists>u v. w = u @ v \<and> c # u \<in> A \<and> v \<in> many A"
  proof (induction "c # w" rule: many.induct)
    case (many_app u v)
    then show ?case by (cases u) auto
  qed
next
  assume "\<exists>u v. w = u @ v \<and> c # u \<in> A \<and> v \<in> many A"
  then obtain u v where "w = u @ v" "c # u \<in> A" "v \<in> many A" by blast
  then show "c # w \<in> many A"
    using many.many_app [of "c # u" A v] by simp
qed

lemma deriv_denote: "w \<in> denote (deriv c r) \<longleftrightarrow> c # w \<in> denote r"
proof (induction r arbitrary: w)
  case (Then r s)
  have "w \<in> denote (deriv c (Then r s)) \<longleftrightarrow>
      (\<exists>u v. w = u @ v \<and> c # u \<in> denote r \<and> v \<in> denote s) \<or> ([] \<in> denote r \<and> c # w \<in> denote s)"
    by (auto simp: conc_iff nullable_denote Then)
  then show ?case
    by (simp only: denote.simps Cons_in_conc)
next
  case (Many r)
  have "w \<in> denote (deriv c (Many r)) \<longleftrightarrow>
      (\<exists>u v. w = u @ v \<and> c # u \<in> denote r \<and> v \<in> many (denote r))"
    by (auto simp: conc_iff Many)
  then show ?case
    by (simp only: denote.simps Cons_in_many)
qed auto

lemma MatchString_denote: "MatchString r s \<longleftrightarrow> s \<in> denote r"
  by (induction s arbitrary: r) (simp_all add: nullable_denote deriv_denote)

subsection \<open>The button grammar and the fields of a button line\<close>


lemma concI: "u \<in> A \<Longrightarrow> v \<in> B \<Longrightarrow> u @ v \<in> conc A B"
  by (auto simp: conc_def)

lemma isDigit_not_tilde: "isDigit d \<Longrightarrow> d \<noteq> CHR ''~''"
  by (auto simp: isDigit_def)

lemma isDigit_not_sign: "isDigit d \<Longrightarrow> d \<noteq> CHR ''-'' \<and> d \<noteq> CHR ''+''"
  by (auto simp: isDigit_def)

lemma tilde_shift:
  "CHR ''~'' # concat (map (\<lambda>b. [b, CHR ''~'']) bs) = concat (map (\<lambda>b. [CHR ''~'', b]) bs) @ ''~''"
  by (induction bs) auto

lemma many_tilde_digit:
  "w \<in> many (denote (Then (Lit (CHR ''~'')) Digit)) \<longleftrightarrow>
     (\<exists>ds. list_all isDigit ds \<and> w = concat (map (\<lambda>b. [CHR ''~'', b]) ds))"
proof
  assume "w \<in> many (denote (Then (Lit (CHR ''~'')) Digit))"
  then show "\<exists>ds. list_all isDigit ds \<and> w = concat (map (\<lambda>b. [CHR ''~'', b]) ds)"
  proof (induction rule: many.induct)
    case many_nil
    have "list_all isDigit [] \<and> [] = concat (map (\<lambda>b. [CHR ''~'', b]) [])" by simp
    then show ?case by blast
  next
    case (many_app u v)
    then obtain ds where ds: "list_all isDigit ds" "v = concat (map (\<lambda>b. [CHR ''~'', b]) ds)"
      by blast
    from many_app.hyps(1) obtain d where d: "isDigit d" "u = [CHR ''~'', d]"
      by (auto simp: conc_iff)
    have "list_all isDigit (d # ds) \<and> u @ v = concat (map (\<lambda>b. [CHR ''~'', b]) (d # ds))"
      using ds d by simp
    then show ?case by blast
  qed
next
  assume "\<exists>ds. list_all isDigit ds \<and> w = concat (map (\<lambda>b. [CHR ''~'', b]) ds)"
  then obtain ds where "list_all isDigit ds" "w = concat (map (\<lambda>b. [CHR ''~'', b]) ds)"
    by blast
  then show "w \<in> many (denote (Then (Lit (CHR ''~'')) Digit))"
  proof (induction ds arbitrary: w)
    case Nil
    then show ?case by (simp add: many.many_nil)
  next
    case (Cons d ds)
    have "[CHR ''~'', d] \<in> denote (Then (Lit (CHR ''~'')) Digit)"
      using Cons.prems(1) by (simp add: conc_iff)
    moreover have "concat (map (\<lambda>b. [CHR ''~'', b]) ds) \<in> many (denote (Then (Lit (CHR ''~'')) Digit))"
      using Cons by simp
    ultimately have "[CHR ''~'', d] @ concat (map (\<lambda>b. [CHR ''~'', b]) ds)
        \<in> many (denote (Then (Lit (CHR ''~'')) Digit))"
      by (rule many.many_app)
    then show ?case using Cons.prems(2) by simp
  qed
qed

lemma buttonLinePattern_denote:
  "line \<in> denote buttonLinePattern \<longleftrightarrow>
     (\<exists>bs. bs \<noteq> [] \<and> list_all isDigit bs \<and> line = builtButtonString bs)"
proof
  assume "line \<in> denote buttonLinePattern"
  then obtain d w where d: "isDigit d" and w: "w \<in> many (denote (Then (Lit (CHR ''~'')) Digit))"
    and line: "line = CHR ''~'' # d # w @ CHR ''~'' # CRLF"
    unfolding buttonLinePattern_def by (auto simp: conc_iff CRLF_def)
  from w obtain ds where ds: "list_all isDigit ds" "w = concat (map (\<lambda>b. [CHR ''~'', b]) ds)"
    using many_tilde_digit by blast
  have "line = builtButtonString (d # ds)"
    using line ds(2) tilde_shift [of ds] by (simp add: builtButtonString_def)
  then show "\<exists>bs. bs \<noteq> [] \<and> list_all isDigit bs \<and> line = builtButtonString bs"
    using d ds(1) by (intro exI [of _ "d # ds"]) simp
next
  assume "\<exists>bs. bs \<noteq> [] \<and> list_all isDigit bs \<and> line = builtButtonString bs"
  then obtain d ds where d: "isDigit d" and ds: "list_all isDigit ds"
    and line: "line = builtButtonString (d # ds)"
    by (cases rule: exE) (auto simp: neq_Nil_conv)
  have w: "concat (map (\<lambda>b. [CHR ''~'', b]) ds) \<in> many (denote (Then (Lit (CHR ''~'')) Digit))"
    using ds many_tilde_digit by blast
  have "line = [CHR ''~''] @ [d] @ concat (map (\<lambda>b. [CHR ''~'', b]) ds) @ [CHR ''~''] @ CRLF"
    using line tilde_shift [of ds] by (simp add: builtButtonString_def)
  moreover have "[CHR ''~''] @ [d] @ concat (map (\<lambda>b. [CHR ''~'', b]) ds) @ [CHR ''~''] @ CRLF
      \<in> denote buttonLinePattern"
  proof -
    have tail: "[CHR ''~''] @ CRLF \<in> denote (Then (Lit (CHR ''~'')) (literal CRLF))"
      by (simp add: CRLF_def conc_iff)
    have "concat (map (\<lambda>b. [CHR ''~'', b]) ds) @ [CHR ''~''] @ CRLF
        \<in> denote (Then (Many (Then (Lit (CHR ''~'')) Digit))
                     (Then (Lit (CHR ''~'')) (literal CRLF)))"
      using concI [OF _ tail] w by simp
    moreover have "[d] \<in> denote Digit" using d by simp
    ultimately have "[d] @ concat (map (\<lambda>b. [CHR ''~'', b]) ds) @ [CHR ''~''] @ CRLF
        \<in> denote (Then Digit (Then (Many (Then (Lit (CHR ''~'')) Digit))
                     (Then (Lit (CHR ''~'')) (literal CRLF))))"
      using concI by (simp only: denote.simps)
    moreover have "[CHR ''~''] \<in> denote (Lit (CHR ''~''))" by simp
    ultimately show ?thesis
      unfolding buttonLinePattern_def using concI by (simp only: denote.simps)
  qed
  ultimately show "line \<in> denote buttonLinePattern" by simp
qed

lemma TrimSuffix_append: "TrimSuffix (s @ suffix) suffix = s"
  by (simp add: TrimSuffix_def HasSuffix_def)

lemma splitFrom_tilde_digits:
  "list_all isDigit ds \<Longrightarrow>
   splitFrom ''~'' piece (concat (map (\<lambda>b. [CHR ''~'', b]) ds)) = rev piece # map (\<lambda>b. [b]) ds"
proof (induction ds arbitrary: piece)
  case Nil
  then show ?case by simp
next
  case (Cons d ds)
  then show ?case by (simp add: isDigit_not_tilde)
qed

lemma dropWhile_rev_last: "z \<noteq> [] \<Longrightarrow> \<not> P (last z) \<Longrightarrow> dropWhile P (rev z) = rev z"
  by (cases z rule: rev_cases) auto

lemma last_tilde_digits:
  "ds \<noteq> [] \<Longrightarrow> last (concat (map (\<lambda>b. [CHR ''~'', b]) ds)) = last ds"
  by (induction ds) auto

lemma buttonFields_built:
  assumes "bs \<noteq> []" "list_all isDigit bs"
  shows "buttonFields (builtButtonString bs) = map (\<lambda>b. [b]) bs"
proof -
  obtain d ds where bs: "bs = d # ds" using assms(1) by (cases bs) auto
  let ?body = "concat (map (\<lambda>b. [CHR ''~'', b]) ds)"
  have d: "isDigit d" and ds: "list_all isDigit ds" using assms(2) bs by auto
  have built: "builtButtonString bs = ((CHR ''~'' # d # ?body) @ ''~'') @ CRLF"
    using tilde_shift [of ds] by (simp add: builtButtonString_def bs)
  have t2: "TrimSuffix (TrimSuffix (builtButtonString bs) CRLF) ''~'' = CHR ''~'' # d # ?body"
    unfolding built TrimSuffix_append ..
  have lastd: "isDigit (last (d # ?body))"
  proof (cases ds)
    case Nil then show ?thesis using d by simp
  next
    case (Cons e es)
    then have "last (d # ?body) = last ds" using last_tilde_digits [of ds] by simp
    moreover have "last ds \<in> set ds" using Cons by simp
    ultimately show ?thesis using ds by (simp add: list_all_iff)
  qed
  have "dropWhile (\<lambda>c. c \<in> set ''~'') (rev (d # ?body)) = rev (d # ?body)"
    by (rule dropWhile_rev_last) (use lastd isDigit_not_tilde in auto)
  then have t3: "Trim (CHR ''~'' # d # ?body) ''~'' = d # ?body"
    using isDigit_not_tilde [OF d] by (simp add: Trim_def)
  have "Split (d # ?body) ''~'' = [d] # map (\<lambda>b. [b]) ds"
    using splitFrom_tilde_digits [OF ds, of "[d]"] isDigit_not_tilde [OF d]
    by (simp add: Split_def)
  then show ?thesis
    unfolding buttonFields_def t2 t3 by (simp add: bs)
qed

lemma Atoi_digit: "isDigit d \<Longrightarrow> fst (Atoi [d]) = digitVal d"
  by (auto simp: Atoi_def Let_def decimal_def isDigit_def digitVal_def)

lemma digitVal_range: "isDigit d \<Longrightarrow> 0 \<le> digitVal d \<and> digitVal d \<le> 9"
  by (auto simp: isDigit_def digitVal_def)

subsection \<open>The loops over the fields\<close>

lemma splitFrom_nonempty: "splitFrom sep piece s \<noteq> []"
  by (induction sep piece s rule: splitFrom.induct) auto

lemma Split_nonempty: "sep \<noteq> [] \<Longrightarrow> Split s sep \<noteq> []"
  by (simp add: Split_def splitFrom_nonempty)

lemma buttonLoop_append:
  "buttonLoop i (fs @ gs) vals evs =
     (case buttonLoop i fs vals evs of
        Inl p \<Rightarrow> Inl p
      | Inr (Ignored v) \<Rightarrow> Inr (Ignored v)
      | Inr (Scanned v e) \<Rightarrow> buttonLoop (i + length fs) gs v e)"
  by (induction fs arbitrary: i vals evs) (auto simp: Let_def split: sum.splits scan.splits)

lemma sliderLoop_append:
  "sliderLoop eps cfg i (fs @ gs) vals evs =
     (case sliderLoop eps cfg i fs vals evs of
        Inl p \<Rightarrow> Inl p
      | Inr (Ignored v) \<Rightarrow> Inr (Ignored v)
      | Inr (Scanned v e) \<Rightarrow> sliderLoop eps cfg (i + length fs) gs v e)"
  by (induction fs arbitrary: i vals evs) (auto simp: Let_def split: sum.splits scan.splits)

lemma upd_at_boundary:
  "n < length vals \<Longrightarrow> length xs = n \<Longrightarrow> (xs @ drop n vals)[n := y] = (xs @ [y]) @ drop (Suc n) vals"
  by (simp add: list_update_append upd_conv_take_nth_drop)

lemma keep_at_boundary:
  "n < length vals \<Longrightarrow> xs @ drop n vals = (xs @ [vals ! n]) @ drop (Suc n) vals"
  by (simp add: Cons_nth_drop_Suc)

lemma buttonLoop_scanned:
  assumes "length fs \<le> length vals" "fs \<noteq> [] \<longrightarrow> fst (Atoi (hd fs)) \<le> 9"
  shows "buttonLoop 0 fs vals [] =
     Inr (Scanned (map (\<lambda>f. fst (Atoi f)) fs @ drop (length fs) vals)
        (map (\<lambda>i. \<lparr>ButtonID = i, PreviousValue = vals ! i, ButtonValue = fst (Atoi (fs ! i))\<rparr>)
           (filter (\<lambda>i. vals ! i \<noteq> fst (Atoi (fs ! i))) [0..<length fs])))"
  using assms
proof (induction fs rule: rev_induct)
  case Nil
  then show ?case by simp
next
  case (snoc f fs)
  let ?n = "length fs"
  have n: "?n < length vals" using snoc.prems(1) by simp
  have guard: "\<not> (?n = 0 \<and> fst (Atoi f) > 9)"
    using snoc.prems(2) by (cases fs) auto
  have hd: "fs \<noteq> [] \<longrightarrow> fst (Atoi (hd fs)) \<le> 9"
    using snoc.prems(2) by (cases fs) auto
  have IH: "buttonLoop 0 fs vals [] =
     Inr (Scanned (map (\<lambda>f. fst (Atoi f)) fs @ drop ?n vals)
        (map (\<lambda>i. \<lparr>ButtonID = i, PreviousValue = vals ! i, ButtonValue = fst (Atoi (fs ! i))\<rparr>)
           (filter (\<lambda>i. vals ! i \<noteq> fst (Atoi (fs ! i))) [0..<?n])))"
    using snoc.IH n hd by simp
  have filt: "filter (\<lambda>i. vals ! i \<noteq> fst (Atoi ((fs @ [f]) ! i))) [0..<?n]
      = filter (\<lambda>i. vals ! i \<noteq> fst (Atoi (fs ! i))) [0..<?n]"
    by (rule filter_cong) (auto simp: nth_append)
  have mp: "map (\<lambda>i. \<lparr>ButtonID = i, PreviousValue = vals ! i, ButtonValue = fst (Atoi ((fs @ [f]) ! i))\<rparr>)
        (filter (\<lambda>i. vals ! i \<noteq> fst (Atoi (fs ! i))) [0..<?n])
      = map (\<lambda>i. \<lparr>ButtonID = i, PreviousValue = vals ! i, ButtonValue = fst (Atoi (fs ! i))\<rparr>)
        (filter (\<lambda>i. vals ! i \<noteq> fst (Atoi (fs ! i))) [0..<?n])"
    by (rule map_cong) (auto simp: nth_append)
  have at: "(map (\<lambda>f. fst (Atoi f)) fs @ drop ?n vals) ! ?n = vals ! ?n"
    using n by (simp add: nth_append)
  show ?case
  proof (cases "vals ! ?n = fst (Atoi f)")
    case True
    then show ?thesis
      using guard n at keep_at_boundary [OF n, of "map (\<lambda>f. fst (Atoi f)) fs"]
      by (simp add: buttonLoop_append IH Let_def filt mp)
  next
    case False
    then show ?thesis
      using guard n at upd_at_boundary [OF n, of "map (\<lambda>f. fst (Atoi f)) fs" "fst (Atoi f)"]
      by (simp add: buttonLoop_append IH Let_def filt mp)
  qed
qed

lemma sliderLoop_scanned:
  assumes "length fs \<le> length vals" "fs \<noteq> [] \<longrightarrow> fst (Atoi (hd fs)) \<le> 1023"
  shows "sliderLoop eps cfg 0 fs vals [] =
     Inr (Scanned
        (map (\<lambda>i. if SignificantlyDifferent eps (vals ! i) (normalized cfg (fst (Atoi (fs ! i))))
                       (NoiseReductionLevel cfg)
                  then normalized cfg (fst (Atoi (fs ! i))) else vals ! i) [0..<length fs]
           @ drop (length fs) vals)
        (map (\<lambda>i. \<lparr>SliderID = i, PercentValue = normalized cfg (fst (Atoi (fs ! i)))\<rparr>)
           (filter (\<lambda>i. SignificantlyDifferent eps (vals ! i) (normalized cfg (fst (Atoi (fs ! i))))
                       (NoiseReductionLevel cfg)) [0..<length fs])))"
  using assms
proof (induction fs rule: rev_induct)
  case Nil
  then show ?case by simp
next
  case (snoc f fs)
  let ?n = "length fs"
  let ?new = "\<lambda>fs i. normalized cfg (fst (Atoi (fs ! i)))"
  let ?sd = "\<lambda>fs i. SignificantlyDifferent eps (vals ! i) (?new fs i) (NoiseReductionLevel cfg)"
  let ?vs = "\<lambda>fs. map (\<lambda>i. if ?sd fs i then ?new fs i else vals ! i) [0..<?n]"
  let ?es = "\<lambda>fs. map (\<lambda>i. \<lparr>SliderID = i, PercentValue = ?new fs i\<rparr>) (filter (?sd fs) [0..<?n])"
  have n: "?n < length vals" using snoc.prems(1) by simp
  have guard: "\<not> (?n = 0 \<and> fst (Atoi f) > 1023)"
    using snoc.prems(2) by (cases fs) auto
  have hd: "fs \<noteq> [] \<longrightarrow> fst (Atoi (hd fs)) \<le> 1023"
    using snoc.prems(2) by (cases fs) auto
  have IH: "sliderLoop eps cfg 0 fs vals [] = Inr (Scanned (?vs fs @ drop ?n vals) (?es fs))"
    using snoc.IH n hd by simp
  have vs: "?vs (fs @ [f]) = ?vs fs"
    by (rule map_cong) (auto simp: nth_append)
  have filt: "filter (?sd (fs @ [f])) [0..<?n] = filter (?sd fs) [0..<?n]"
    by (rule filter_cong) (auto simp: nth_append)
  have es: "?es (fs @ [f]) = ?es fs"
    unfolding filt by (rule map_cong) (auto simp: nth_append)
  have at: "(?vs fs @ drop ?n vals) ! ?n = vals ! ?n"
    using n by (simp add: nth_append)
  have len: "length (?vs fs) = ?n" by simp
  show ?case
  proof (cases "SignificantlyDifferent eps (vals ! ?n) (normalized cfg (fst (Atoi f))) (NoiseReductionLevel cfg)")
    case True
    have "sliderLoop eps cfg 0 (fs @ [f]) vals [] =
        Inr (Scanned ((?vs fs @ [normalized cfg (fst (Atoi f))]) @ drop (Suc ?n) vals)
               (?es fs @ [\<lparr>SliderID = ?n, PercentValue = normalized cfg (fst (Atoi f))\<rparr>]))"
      using guard n at True upd_at_boundary [OF n len, of "normalized cfg (fst (Atoi f))"]
      by (simp add: sliderLoop_append IH Let_def del: upt_Suc map_append)
    then show ?thesis
      using True vs es filt by simp
  next
    case False
    have "sliderLoop eps cfg 0 (fs @ [f]) vals [] =
        Inr (Scanned ((?vs fs @ [vals ! ?n]) @ drop (Suc ?n) vals) (?es fs))"
      using guard n at False keep_at_boundary [OF n, of "?vs fs"]
      by (simp add: sliderLoop_append IH Let_def del: upt_Suc map_append)
    then show ?thesis
      using False vs es filt by simp
  qed
qed

lemma pressAll_returns:
  "pressAll kbd cfg evs = Inr pressed \<Longrightarrow>
   map fst pressed = filter (\<lambda>e. PreviousValue e = 0 \<and> ButtonValue e \<noteq> 0) evs
   \<and> map (\<lambda>(e, launched). Inr launched) pressed
       = map (pressedButton kbd cfg) (filter (\<lambda>e. PreviousValue e = 0 \<and> ButtonValue e \<noteq> 0) evs)"
  by (induction evs arbitrary: pressed) (auto split: if_splits sum.splits)

lemma pressAll_ok:
  assumes "\<And>e. e \<in> set evs \<Longrightarrow> PreviousValue e = 0 \<Longrightarrow> ButtonValue e \<noteq> 0 \<Longrightarrow>
             \<exists>launched. pressedButton kbd cfg e = Inr launched"
  shows "\<exists>pressed. pressAll kbd cfg evs = Inr pressed"
  using assms
proof (induction evs)
  case Nil
  then show ?case by simp
next
  case (Cons e evs)
  from Cons.IH Cons.prems obtain rest where rest: "pressAll kbd cfg evs = Inr rest"
    by auto
  show ?case
  proof (cases "PreviousValue e = 0 \<and> ButtonValue e \<noteq> 0")
    case True
    then obtain launched where "pressedButton kbd cfg e = Inr launched"
      using Cons.prems [of e] by auto
    then show ?thesis using True rest by simp
  next
    case False
    then show ?thesis using rest by auto
  qed
qed

lemma pressAll_Inl:
  "pressAll kbd cfg evs = Inl p \<Longrightarrow>
   \<exists>e \<in> set (filter (\<lambda>e. PreviousValue e = 0 \<and> ButtonValue e \<noteq> 0) evs).
      pressedButton kbd cfg e = Inl p"
  by (induction evs) (auto split: if_splits sum.splits)


lemma pressedButton_Inl_iff:
  "(\<exists>p. pressedButton kbd cfg ev = Inl p) \<longleftrightarrow>
     (NewKeyBonding kbd \<noteq> None \<or>
      Launching kbd (fst (setKeys 0 (case ButtonMapping cfg (int (ButtonID ev)) of None \<Rightarrow> [] | Some ts \<Rightarrow> ts)
         \<lparr>keys = [], hasCTRL = False, hasSuper = False, hasALTGR = False\<rparr> [])) \<noteq> None)"
  by (auto simp: pressedButton_def Let_def split: option.splits prod.splits)

lemma normalized_range: "0 \<le> normalized cfg n \<and> normalized cfg n \<le> 1"
proof -
  have "0 \<le> NormalizeScalar v \<and> NormalizeScalar v \<le> 1" for v
  proof -
    let ?x = "min 1 (max 0 v) * 100"
    have "0 \<le> ?x" "?x \<le> 100" by auto
    then have "0 \<le> round ?x" "round ?x \<le> 100"
      using round_mono [of 0 ?x] round_mono [of ?x 100] by simp_all
    then have "(0::rat) \<le> of_int (round ?x)" "(of_int (round ?x) :: rat) \<le> 100"
      by simp_all
    then show ?thesis by (simp add: NormalizeScalar_def)
  qed
  then show ?thesis
    by (auto simp: normalized_def Let_def)
qed

lemma expected_starts_with_digit:
  assumes "MatchString expectedLinePattern line"
  shows "\<exists>c rest. line = c # rest \<and> isDigit c"
proof -
  from assms have "line \<in> denote expectedLinePattern" by (simp add: MatchString_denote)
  then show ?thesis
    unfolding expectedLinePattern_def
    by (auto simp: conc_iff eval_nat_numeral)
qed

lemma expected_not_button:
  assumes "MatchString expectedLinePattern line"
  shows "\<not> MatchString buttonLinePattern line"
proof
  assume "MatchString buttonLinePattern line"
  then obtain bs where "line = builtButtonString bs"
    using buttonLinePattern_denote MatchString_denote by blast
  then have "hd line = CHR ''~''" by (simp add: builtButtonString_def)
  moreover from expected_starts_with_digit [OF assms] have "isDigit (hd line)" by auto
  ultimately show False using isDigit_not_tilde by auto
qed

subsection \<open>The remembered counts stay consistent with the stored values\<close>

lemma sliderLoop_length:
  "sliderLoop eps cfg i fs vals evs = Inr r \<Longrightarrow>
   length (case r of Ignored v \<Rightarrow> v | Scanned v e \<Rightarrow> v) = length vals"
proof (induction fs arbitrary: i vals evs)
  case Nil
  then show ?case by auto
next
  case (Cons f fs)
  show ?case
  proof (cases "i = 0 \<and> fst (Atoi f) > 1023")
    case True
    then show ?thesis using Cons.prems by auto
  next
    case False
    then show ?thesis
      using Cons.prems Cons.IH [of "Suc i" "vals[i := normalized cfg (fst (Atoi f))]"]
        Cons.IH [of "Suc i" vals]
      by (auto simp: Let_def split: if_splits)
  qed
qed

lemma buttonLoop_length:
  "buttonLoop i fs vals evs = Inr r \<Longrightarrow>
   length (case r of Ignored v \<Rightarrow> v | Scanned v e \<Rightarrow> v) = length vals"
proof (induction fs arbitrary: i vals evs)
  case Nil
  then show ?case by auto
next
  case (Cons f fs)
  show ?case
  proof (cases "i = 0 \<and> fst (Atoi f) > 9")
    case True
    then show ?thesis using Cons.prems by auto
  next
    case False
    then show ?thesis
      using Cons.prems Cons.IH [of "Suc i" "vals[i := fst (Atoi f)]"] Cons.IH [of "Suc i" vals]
      by (auto simp: Let_def split: if_splits)
  qed
qed

lemma tracked_initial: "slidersTracked NewSerialIO \<and> buttonsTracked NewSerialIO"
  by (simp add: slidersTracked_def buttonsTracked_def NewSerialIO_def)

lemma tracked_resetCounts:
  "slidersTracked (resetCounts sio) \<and> buttonsTracked (resetCounts sio)"
  by (simp add: slidersTracked_def buttonsTracked_def resetCounts_def)

lemma handleButtons_tracked:
  assumes "slidersTracked sio" "buttonsTracked sio"
    and "handleButtons kbd cfg line sio = Inr (sio', pressed)"
  shows "slidersTracked sio' \<and> buttonsTracked sio'"
proof -
  let ?n = "length (buttonFields line)"
  let ?sio1 = "if ?n \<noteq> lastKnownNumButtons sio
               then sio\<lparr>lastKnownNumButtons := ?n, currentButtonValues := replicate ?n (- 1)\<rparr>
               else sio"
  from assms(3) obtain r where
    r: "buttonLoop 0 (buttonFields line) (currentButtonValues ?sio1) [] = Inr r"
    and sio': "sio' = ?sio1\<lparr>currentButtonValues := (case r of Ignored v \<Rightarrow> v | Scanned v e \<Rightarrow> v)\<rparr>"
    by (auto simp: handleButtons_def Let_def split: sum.splits scan.splits if_splits)
  have "buttonsTracked ?sio1" "slidersTracked ?sio1"
    using assms(1,2) by (auto simp: buttonsTracked_def slidersTracked_def)
  then show ?thesis
    using buttonLoop_length [OF r] unfolding sio'
    by (auto simp: buttonsTracked_def slidersTracked_def)
qed

lemma handleLine_tracked:
  assumes "slidersTracked sio" "buttonsTracked sio"
    and "handleLine eps kbd cfg line sio = Inr (sio', out)"
  shows "slidersTracked sio' \<and> buttonsTracked sio'"
proof (cases "MatchString buttonLinePattern line")
  case True
  then show ?thesis
    using assms handleButtons_tracked [of sio kbd cfg line sio']
    by (auto simp: handleLine_def split: sum.splits)
next
  case False
  show ?thesis
  proof (cases "MatchString expectedLinePattern line")
    case nomatch: False
    then show ?thesis using assms False by (simp add: handleLine_def)
  next
    case match: True
    let ?n = "length (sliderFields line)"
    let ?sio1 = "if ?n \<noteq> lastKnownNumSliders sio
                 then sio\<lparr>lastKnownNumSliders := ?n,
                          currentSliderPercentValues := replicate ?n (- 1)\<rparr>
                 else sio"
    from assms(3) False match obtain r where
      r: "sliderLoop eps cfg 0 (sliderFields line) (currentSliderPercentValues ?sio1) [] = Inr r"
      and sio': "currentSliderPercentValues sio' = (case r of Ignored v \<Rightarrow> v | Scanned v e \<Rightarrow> v)
           \<and> lastKnownNumSliders sio' = lastKnownNumSliders ?sio1
           \<and> lastKnownNumButtons sio' = lastKnownNumButtons sio
           \<and> currentButtonValues sio' = currentButtonValues sio"
      by (auto simp: handleLine_def Let_def split: sum.splits scan.splits if_splits)
    have "slidersTracked ?sio1"
      using assms(1) by (auto simp: slidersTracked_def)
    then show ?thesis
      using sliderLoop_length [OF r] sio' assms(2)
      by (auto simp: buttonsTracked_def slidersTracked_def split: if_splits)
  qed
qed

lemma handleLines_tracked:
  "slidersTracked sio \<Longrightarrow> buttonsTracked sio \<Longrightarrow>
   handleLines eps kbd cfg lines sio = Inr sio' \<Longrightarrow>
   slidersTracked sio' \<and> buttonsTracked sio'"
proof (induction lines arbitrary: sio)
  case Nil
  then show ?case by simp
next
  case (Cons line lines)
  from Cons.prems(3) obtain sio1 out where
    one: "handleLine eps kbd cfg line sio = Inr (sio1, out)"
    and rest: "handleLines eps kbd cfg lines sio1 = Inr sio'"
    by (auto split: sum.splits)
  from handleLine_tracked [OF Cons.prems(1,2) one]
  show ?case using rest Cons.IH by blast
qed

subsection \<open>Line grammar and parsing\<close>

text \<open>
  C8. A raw line that matches neither the button grammar nor the slider grammar is dropped:
  \<^verbatim>\<open>handleLine\<close> returns without a panic, with no slider event, no button action, and the
  whole state (stored slider and button values, remembered channel counts, subscribers)
  as it was.
\<close>

theorem unmatched_line_dropped:
  assumes "\<not> MatchString buttonLinePattern line" and "\<not> MatchString expectedLinePattern line"
  shows "handleLine eps kbd cfg line sio = Inr (sio, [], [])"
  using assms by (simp add: handleLine_def)

text \<open>An instance: a boot message is dropped in the initial state.\<close>

theorem unmatched_line_dropped_witness:
  "\<not> MatchString buttonLinePattern (''deej boot'' @ CRLF)
   \<and> \<not> MatchString expectedLinePattern (''deej boot'' @ CRLF)
   \<and> handleLine sampleEps workingKeybd sampleConfig (''deej boot'' @ CRLF) NewSerialIO
       = Inr (NewSerialIO, [], [])"
proof -
  have b: "\<not> MatchString buttonLinePattern (''deej boot'' @ CRLF)" by code_simp
  have e: "\<not> MatchString expectedLinePattern (''deej boot'' @ CRLF)" by code_simp
  show ?thesis
    using b e unmatched_line_dropped [OF b e, of sampleEps workingKeybd sampleConfig NewSerialIO]
    by simp
qed

text \<open>
  C6, as stated, fails: the line \<^verbatim>\<open>~2~\<close> is accepted by the button grammar and parses
  to the button value 2.
\<close>

theorem button_digit_two_counterexample:
  "MatchString buttonLinePattern (''~2~'' @ CRLF)
   \<and> buttonValues (''~2~'' @ CRLF) = [2]"
  by code_simp

text \<open>
  C6, amended. A line is recognized as a button frame exactly when it is a tilde, then one
  or more fields each a single decimal digit (0 to 9) followed by a tilde, then CR LF:
  the pattern is \<^verbatim>\<open>\d\<close>, and the handler expects values between 0 and 9.
\<close>

theorem button_grammar_digits:
  "MatchString buttonLinePattern line \<longleftrightarrow>
     (\<exists>bs. bs \<noteq> [] \<and> list_all isDigit bs \<and> line = builtButtonString bs)"
  by (simp add: MatchString_denote buttonLinePattern_denote)

text \<open>An instance: the frame with the fields 0, 9, 1, 5 is accepted.\<close>

theorem button_grammar_digits_witness:
  "MatchString buttonLinePattern (builtButtonString ''0915'')"
proof -
  have "''0915'' \<noteq> [] \<and> list_all isDigit ''0915''" by code_simp
  then show ?thesis
    using button_grammar_digits [of "builtButtonString ''0915''"] by blast
qed

text \<open>
  C7. The button line \<^verbatim>\<open>~0~1~0~\<close> (with CR LF) parses to the button values [0,1,0], and
  the slider line \<^verbatim>\<open>512|1023|0\<close> (with CR LF) parses to the raw values [512,1023,0],
  which normalize uninverted to [0.50, 1.00, 0.00]. The same is seen through
  \<^verbatim>\<open>handleLine\<close> from the initial state: the stored button values, and the slider events
  and stored slider values.
\<close>

theorem parse_round_trip:
  "buttonValues (''~0~1~0~'' @ CRLF) = [0, 1, 0]
   \<and> sliderValues (''512|1023|0'' @ CRLF) = [512, 1023, 0]
   \<and> map (normalized (sampleConfig\<lparr>InvertSliders := False\<rparr>)) [512, 1023, 0] = [1 / 2, 1, 0]
   \<and> (\<exists>sio. handleLine sampleEps workingKeybd sampleConfig (''~0~1~0~'' @ CRLF) NewSerialIO
              = Inr (sio, [], []) \<and> currentButtonValues sio = [0, 1, 0])
   \<and> (\<exists>sio. handleLine sampleEps workingKeybd (sampleConfig\<lparr>InvertSliders := False\<rparr>)
                (''512|1023|0'' @ CRLF) NewSerialIO
              = Inr (sio, [\<lparr>SliderID = 0, PercentValue = 1 / 2\<rparr>,
                           \<lparr>SliderID = 1, PercentValue = 1\<rparr>,
                           \<lparr>SliderID = 2, PercentValue = 0\<rparr>], [])
            \<and> currentSliderPercentValues sio = [1 / 2, 1, 0])"
proof -
  have 1: "buttonValues (''~0~1~0~'' @ CRLF) = [0, 1, 0]" by code_simp
  have 2: "sliderValues (''512|1023|0'' @ CRLF) = [512, 1023, 0]" by code_simp
  have 3: "map (normalized (sampleConfig\<lparr>InvertSliders := False\<rparr>)) [512, 1023, 0] = [1 / 2, 1, 0]"
    by code_simp
  have 4: "handleLine sampleEps workingKeybd sampleConfig (''~0~1~0~'' @ CRLF) NewSerialIO
      = Inr (NewSerialIO\<lparr>lastKnownNumButtons := 3, currentButtonValues := [0, 1, 0]\<rparr>, [], [])"
    by code_simp
  have 5: "handleLine sampleEps workingKeybd (sampleConfig\<lparr>InvertSliders := False\<rparr>)
                (''512|1023|0'' @ CRLF) NewSerialIO
      = Inr (NewSerialIO\<lparr>lastKnownNumSliders := 3, currentSliderPercentValues := [1 / 2, 1, 0]\<rparr>,
             [\<lparr>SliderID = 0, PercentValue = 1 / 2\<rparr>,
              \<lparr>SliderID = 1, PercentValue = 1\<rparr>,
              \<lparr>SliderID = 2, PercentValue = 0\<rparr>], [])"
    by code_simp
  show ?thesis
    unfolding 1 2 3 4 5 by simp
qed

text \<open>
  C2. A slider line whose first field exceeds 1023 is given up at the first field, with no
  event. The claim adds that no tracker state is mutated; the check of the channel count
  comes before the guard, so on a line of three fields in a two-channel state the
  remembered count becomes 3 and the stored values are reset to unset:
\<close>

theorem torn_first_field_resets_state:
  "handleLine sampleEps workingKeybd sampleConfig (''4558|925|41'' @ CRLF)
     (NewSerialIO\<lparr>lastKnownNumSliders := 2, currentSliderPercentValues := [1 / 2, 1 / 4]\<rparr>)
   = Inr (NewSerialIO\<lparr>lastKnownNumSliders := 3, currentSliderPercentValues := [- 1, - 1, - 1]\<rparr>,
          [], [])"
  by code_simp

subsection \<open>Button frames\<close>

lemma button_frame_scanned:
  assumes tracked: "buttonsTracked sio" and match: "MatchString buttonLinePattern line"
  shows "buttonLoop 0 (buttonFields line)
           (buttonsCompared sio (length (buttonValues line))) [] =
     Inr (Scanned (buttonValues line)
        (map (\<lambda>i. \<lparr>ButtonID = i,
                    PreviousValue = buttonsCompared sio (length (buttonValues line)) ! i,
                    ButtonValue = buttonValues line ! i\<rparr>)
           (filter (\<lambda>i. buttonsCompared sio (length (buttonValues line)) ! i \<noteq> buttonValues line ! i)
              [0..<length (buttonValues line)])))"
proof -
  from match obtain bs where bs: "bs \<noteq> []" "list_all isDigit bs" "line = builtButtonString bs"
    using buttonLinePattern_denote MatchString_denote by blast
  let ?fs = "buttonFields line"
  let ?n = "length (buttonValues line)"
  let ?vals = "buttonsCompared sio ?n"
  have fs: "?fs = map (\<lambda>b. [b]) bs"
    using buttonFields_built [OF bs(1,2)] bs(3) by simp
  have n: "?n = length ?fs" by (simp add: buttonValues_def)
  have len: "length ?vals = length ?fs"
    using tracked bs(1) fs n by (auto simp: buttonsCompared_def buttonsTracked_def)
  have "isDigit (hd bs)" using bs(1,2) by (cases bs) auto
  then have first: "?fs \<noteq> [] \<longrightarrow> fst (Atoi (hd ?fs)) \<le> 9"
    using bs(1) fs Atoi_digit digitVal_range by (cases bs) auto
  have nth: "\<And>i. i < length ?fs \<Longrightarrow> fst (Atoi (?fs ! i)) = buttonValues line ! i"
    by (simp add: buttonValues_def)
  have filt: "filter (\<lambda>i. ?vals ! i \<noteq> fst (Atoi (?fs ! i))) [0..<length ?fs]
      = filter (\<lambda>i. ?vals ! i \<noteq> buttonValues line ! i) [0..<length ?fs]"
    by (rule filter_cong) (auto simp: nth)
  have mp: "map (\<lambda>i. \<lparr>ButtonID = i, PreviousValue = ?vals ! i, ButtonValue = fst (Atoi (?fs ! i))\<rparr>)
        (filter (\<lambda>i. ?vals ! i \<noteq> buttonValues line ! i) [0..<length ?fs])
      = map (\<lambda>i. \<lparr>ButtonID = i, PreviousValue = ?vals ! i, ButtonValue = buttonValues line ! i\<rparr>)
        (filter (\<lambda>i. ?vals ! i \<noteq> buttonValues line ! i) [0..<length ?fs])"
    by (rule map_cong) (auto simp: nth)
  have "buttonLoop 0 ?fs ?vals [] =
     Inr (Scanned (map (\<lambda>f. fst (Atoi f)) ?fs @ drop (length ?fs) ?vals)
        (map (\<lambda>i. \<lparr>ButtonID = i, PreviousValue = ?vals ! i, ButtonValue = fst (Atoi (?fs ! i))\<rparr>)
           (filter (\<lambda>i. ?vals ! i \<noteq> fst (Atoi (?fs ! i))) [0..<length ?fs])))"
    using len by (intro buttonLoop_scanned first) simp
  moreover have vmap: "map (\<lambda>f. fst (Atoi f)) ?fs = buttonValues line"
    by (simp add: buttonValues_def)
  moreover have "drop (length ?fs) ?vals = []" using len by simp
  ultimately show ?thesis
    unfolding filt mp by (simp only: n [symmetric] append_Nil2)
qed

lemma handleButtons_unfold:
  "handleButtons kbd cfg line sio =
     (case buttonLoop 0 (buttonFields line)
             (buttonsCompared sio (length (buttonValues line))) [] of
        Inl p \<Rightarrow> Inl p
      | Inr (Ignored vals) \<Rightarrow>
          Inr (sio\<lparr>lastKnownNumButtons := length (buttonValues line),
                   currentButtonValues := vals\<rparr>, [])
      | Inr (Scanned vals moveEvents) \<Rightarrow>
          (case pressAll kbd cfg moveEvents of
             Inl p \<Rightarrow> Inl p
           | Inr pressed \<Rightarrow>
               Inr (sio\<lparr>lastKnownNumButtons := length (buttonValues line),
                        currentButtonValues := vals\<rparr>, pressed)))"
  by (auto simp: handleButtons_def Let_def buttonsCompared_def buttonValues_def
           split: sum.splits scan.splits)

lemma rising_of_changed:
  "filter (\<lambda>e. PreviousValue e = 0 \<and> ButtonValue e \<noteq> 0)
     (map (\<lambda>i. \<lparr>ButtonID = i, PreviousValue = old ! i, ButtonValue = new ! i\<rparr>)
        (filter (\<lambda>i. old ! i \<noteq> new ! i) [0..<n]))
   = map (\<lambda>i. \<lparr>ButtonID = i, PreviousValue = 0, ButtonValue = new ! i\<rparr>)
       (filter (\<lambda>i. old ! i = 0 \<and> new ! i \<noteq> 0) [0..<n])"
proof -
  have "filter (\<lambda>e. PreviousValue e = 0 \<and> ButtonValue e \<noteq> 0)
     (map (\<lambda>i. \<lparr>ButtonID = i, PreviousValue = old ! i, ButtonValue = new ! i\<rparr>)
        (filter (\<lambda>i. old ! i \<noteq> new ! i) [0..<n]))
    = map (\<lambda>i. \<lparr>ButtonID = i, PreviousValue = old ! i, ButtonValue = new ! i\<rparr>)
        (filter (\<lambda>i. old ! i = 0 \<and> new ! i \<noteq> 0) [0..<n])"
    by (simp add: filter_map comp_def) (metis (mono_tags, lifting) filter_cong)
  also have "\<dots> = map (\<lambda>i. \<lparr>ButtonID = i, PreviousValue = 0, ButtonValue = new ! i\<rparr>)
        (filter (\<lambda>i. old ! i = 0 \<and> new ! i \<noteq> 0) [0..<n])"
    by (rule map_cong) auto
  finally show ?thesis .
qed

lemma count_in_filtered_upt:
  "length (filter (\<lambda>e. ButtonID e = i)
      (map (\<lambda>j. \<lparr>ButtonID = j, PreviousValue = 0, ButtonValue = new ! j\<rparr>) (filter P [0..<n])))
   = (if i < n \<and> P i then 1 else 0)"
proof -
  have "filter (\<lambda>j. j = i) (filter P [0..<n]) = (if i < n \<and> P i then [i] else [])"
    by (induction n) auto
  then show ?thesis
    by (simp add: filter_map comp_def)
qed

lemma risingEdges_edgesOf:
  "risingEdges sio line
     = edgesOf (buttonsCompared sio (length (buttonValues line))) (buttonValues line)"
  by (simp add: risingEdges_def edgesOf_def Let_def)

lemma edgesOf_unset: "edgesOf (replicate (length new) (- 1)) new = []"
  by (simp add: edgesOf_def filter_empty_conv)

lemma button_frame_handled:
  assumes "buttonsTracked sio" and "MatchString buttonLinePattern line"
  shows "\<exists>changed.
           filter (\<lambda>e. PreviousValue e = 0 \<and> ButtonValue e \<noteq> 0) changed = risingEdges sio line
           \<and> handleLine eps kbd cfg line sio =
               (case pressAll kbd cfg changed of
                  Inl p \<Rightarrow> Inl p
                | Inr pressed \<Rightarrow>
                    Inr (sio\<lparr>lastKnownNumButtons := length (buttonValues line),
                             currentButtonValues := buttonValues line\<rparr>, [], pressed))"
proof -
  let ?n = "length (buttonValues line)"
  let ?old = "buttonsCompared sio ?n"
  let ?changed = "map (\<lambda>i. \<lparr>ButtonID = i, PreviousValue = ?old ! i,
                              ButtonValue = buttonValues line ! i\<rparr>)
                    (filter (\<lambda>i. ?old ! i \<noteq> buttonValues line ! i) [0..<?n])"
  have loop: "buttonLoop 0 (buttonFields line) ?old [] = Inr (Scanned (buttonValues line) ?changed)"
    by (rule button_frame_scanned [OF assms])
  have rising: "filter (\<lambda>e. PreviousValue e = 0 \<and> ButtonValue e \<noteq> 0) ?changed
      = risingEdges sio line"
    by (simp only: rising_of_changed risingEdges_def Let_def)
  have hl: "handleLine eps kbd cfg line sio =
      (case pressAll kbd cfg ?changed of
         Inl p \<Rightarrow> Inl p
       | Inr pressed \<Rightarrow>
           Inr (sio\<lparr>lastKnownNumButtons := ?n, currentButtonValues := buttonValues line\<rparr>,
                [], pressed))"
    using assms(2) by (simp add: handleLine_def handleButtons_unfold loop split: sum.splits)
  show ?thesis using rising hl by blast
qed

lemma count_of_edges:
  assumes "map fst pressed = edgesOf old new"
  shows "length (filter (\<lambda>(e, launched). ButtonID e = i) pressed) =
           (if i < length new \<and> old ! i = 0 \<and> new ! i \<noteq> 0 then 1 else 0)"
proof -
  have "length (filter (\<lambda>(e, launched). ButtonID e = i) pressed)
      = length (filter (\<lambda>e. ButtonID e = i) (map fst pressed))"
    by (simp add: filter_map comp_def case_prod_unfold)
  also have "\<dots> = (if i < length new \<and> old ! i = 0 \<and> new ! i \<noteq> 0 then 1 else 0)"
    unfolding assms edgesOf_def
    by (rule count_in_filtered_upt [where P = "\<lambda>i. old ! i = 0 \<and> new ! i \<noteq> 0"])
  finally show ?thesis .
qed

text \<open>
  C3, as stated, fails: after a configuration reload has reset the remembered counts, the
  stored value of channel 0 is still 0 and the frame \<^verbatim>\<open>~1~\<close> brings the value 1, but the
  frame resets the stored values to unset first and the trigger is not called.
\<close>

theorem rising_edge_after_reload_counterexample:
  "handleLines sampleEps workingKeybd sampleConfig [''~0~'' @ CRLF] NewSerialIO
     = Inr (NewSerialIO\<lparr>lastKnownNumButtons := 1, currentButtonValues := [0]\<rparr>)
   \<and> currentButtonValues
        (resetCounts (NewSerialIO\<lparr>lastKnownNumButtons := 1, currentButtonValues := [0]\<rparr>)) ! 0 = 0
   \<and> buttonValues (''~1~'' @ CRLF) ! 0 = 1
   \<and> handleLine sampleEps workingKeybd sampleConfig (''~1~'' @ CRLF)
        (resetCounts (NewSerialIO\<lparr>lastKnownNumButtons := 1, currentButtonValues := [0]\<rparr>))
     = Inr (NewSerialIO\<lparr>lastKnownNumButtons := 1, currentButtonValues := [1]\<rparr>, [], [])"
  by code_simp

text \<open>
  C3, amended. On a button frame whose channel count equals the remembered count, the
  action trigger is called exactly on the rising edges: once, in channel order, with the
  event (previous 0, the new value) of each channel whose stored value is 0 and whose new
  value is not 0, and on no other channel (falling edges and unchanged channels). The calls
  are the calls of \<^verbatim>\<open>pressedButton\<close> (what each launched is part of the result of
  \<^verbatim>\<open>handleLine\<close>, so they are made before it returns); a panic of the handler is the panic
  of one of these calls, and when none of them panics the handler returns. On a frame whose
  channel count differs from the remembered count (the first frame, the first after a
  reload, a changed count) the stored values are reset to unset first, and the handler
  returns without any call of the trigger.
\<close>

theorem trigger_called_on_rising_edges:
  assumes "buttonsTracked sio" and "MatchString buttonLinePattern line"
  shows "(length (buttonValues line) = lastKnownNumButtons sio \<longrightarrow>
            (\<forall>sio' moved pressed.
               handleLine eps kbd cfg line sio = Inr (sio', moved, pressed) \<longrightarrow>
                 map fst pressed = edgesOf (currentButtonValues sio) (buttonValues line)
                 \<and> map (\<lambda>(e, launched). Inr launched) pressed
                     = map (pressedButton kbd cfg)
                         (edgesOf (currentButtonValues sio) (buttonValues line))
                 \<and> (\<forall>i. length (filter (\<lambda>(e, launched). ButtonID e = i) pressed) =
                        (if i < length (buttonValues line)
                            \<and> currentButtonValues sio ! i = 0
                            \<and> buttonValues line ! i \<noteq> 0
                         then 1 else 0)))
          \<and> (\<forall>p. handleLine eps kbd cfg line sio = Inl p \<longrightarrow>
                 (\<exists>e \<in> set (edgesOf (currentButtonValues sio) (buttonValues line)).
                    pressedButton kbd cfg e = Inl p))
          \<and> ((\<forall>e \<in> set (edgesOf (currentButtonValues sio) (buttonValues line)).
                 \<exists>launched. pressedButton kbd cfg e = Inr launched) \<longrightarrow>
               (\<exists>sio' pressed. handleLine eps kbd cfg line sio = Inr (sio', [], pressed))))
       \<and> (length (buttonValues line) \<noteq> lastKnownNumButtons sio \<longrightarrow>
            handleLine eps kbd cfg line sio =
              Inr (sio\<lparr>lastKnownNumButtons := length (buttonValues line),
                       currentButtonValues := buttonValues line\<rparr>, [], []))"
proof -
  let ?n = "length (buttonValues line)"
  let ?rising = "\<lambda>e. PreviousValue e = 0 \<and> ButtonValue e \<noteq> 0"
  from button_frame_handled [OF assms, of eps kbd cfg] obtain changed where
    rising: "filter ?rising changed = risingEdges sio line"
    and hl: "handleLine eps kbd cfg line sio =
      (case pressAll kbd cfg changed of
         Inl p \<Rightarrow> Inl p
       | Inr pressed \<Rightarrow>
           Inr (sio\<lparr>lastKnownNumButtons := ?n, currentButtonValues := buttonValues line\<rparr>,
                [], pressed))"
    by blast
  show ?thesis
  proof (cases "?n = lastKnownNumButtons sio")
    case True
    let ?edges = "edgesOf (currentButtonValues sio) (buttonValues line)"
    have edges: "filter ?rising changed = ?edges"
      using True rising by (simp add: risingEdges_edgesOf buttonsCompared_def)
    have returned: "map fst pressed = ?edges
        \<and> map (\<lambda>(e, launched). Inr launched) pressed = map (pressedButton kbd cfg) ?edges
        \<and> (\<forall>i. length (filter (\<lambda>(e, launched). ButtonID e = i) pressed) =
               (if i < ?n \<and> currentButtonValues sio ! i = 0 \<and> buttonValues line ! i \<noteq> 0
                then 1 else 0))"
      if "handleLine eps kbd cfg line sio = Inr (sio', moved, pressed)" for sio' moved pressed
    proof -
      from that have "pressAll kbd cfg changed = Inr pressed"
        by (auto simp: hl split: sum.splits)
      from pressAll_returns [OF this] have m: "map fst pressed = ?edges"
        and r: "map (\<lambda>(e, launched). Inr launched) pressed = map (pressedButton kbd cfg) ?edges"
        unfolding edges by simp_all
      from count_of_edges [OF m] m r show ?thesis by blast
    qed
    have panicked: "\<exists>e \<in> set ?edges. pressedButton kbd cfg e = Inl p"
      if "handleLine eps kbd cfg line sio = Inl p" for p
    proof -
      from that have "pressAll kbd cfg changed = Inl p"
        by (auto simp: hl split: sum.splits)
      from pressAll_Inl [OF this] show ?thesis unfolding edges .
    qed
    have returns: "\<exists>sio' pressed. handleLine eps kbd cfg line sio = Inr (sio', [], pressed)"
      if ok: "\<forall>e \<in> set ?edges. \<exists>launched. pressedButton kbd cfg e = Inr launched"
    proof -
      have "\<exists>pressed. pressAll kbd cfg changed = Inr pressed"
      proof (rule pressAll_ok)
        fix e
        assume "e \<in> set changed" "PreviousValue e = 0" "ButtonValue e \<noteq> 0"
        then have "e \<in> set (filter ?rising changed)" by simp
        then show "\<exists>launched. pressedButton kbd cfg e = Inr launched"
          using ok unfolding edges by blast
      qed
      then show ?thesis by (auto simp: hl)
    qed
    show ?thesis using True returned panicked returns by blast
  next
    case False
    have "filter ?rising changed = []"
      using False rising by (simp add: risingEdges_edgesOf buttonsCompared_def edgesOf_unset)
    then have none: "\<And>e. e \<in> set changed \<Longrightarrow> PreviousValue e = 0 \<Longrightarrow> ButtonValue e \<noteq> 0 \<Longrightarrow> False"
      by (auto simp: filter_empty_conv)
    have "\<exists>pressed. pressAll kbd cfg changed = Inr pressed"
      by (rule pressAll_ok) (use none in blast)
    then obtain pressed where p: "pressAll kbd cfg changed = Inr pressed" by blast
    from pressAll_returns [OF p] \<open>filter ?rising changed = []\<close> have "pressed = []" by simp
    then show ?thesis using False p by (simp add: hl)
  qed
qed

text \<open>
  An instance: with the stored values [0, 1, 1, 0] the frame \<^verbatim>\<open>~0~0~1~1~\<close> (no change
  on channels 0 and 2, a falling edge on channel 1, a rising edge on channel 3) calls the
  trigger once, for channel 3, which launches the key configured for button 3.
\<close>

theorem trigger_called_on_rising_edges_witness:
  "buttonsTracked (NewSerialIO\<lparr>lastKnownNumButtons := 4, currentButtonValues := [0, 1, 1, 0]\<rparr>)
   \<and> MatchString buttonLinePattern (''~0~0~1~1~'' @ CRLF)
   \<and> length (buttonValues (''~0~0~1~1~'' @ CRLF))
       = lastKnownNumButtons
           (NewSerialIO\<lparr>lastKnownNumButtons := 4, currentButtonValues := [0, 1, 1, 0]\<rparr>)
   \<and> handleLine sampleEps workingKeybd sampleConfig (''~0~0~1~1~'' @ CRLF)
        (NewSerialIO\<lparr>lastKnownNumButtons := 4, currentButtonValues := [0, 1, 1, 0]\<rparr>)
      = Inr (NewSerialIO\<lparr>lastKnownNumButtons := 4, currentButtonValues := [0, 0, 1, 1]\<rparr>, [],
             [(\<lparr>ButtonID = 3, PreviousValue = 0, ButtonValue = 1\<rparr>,
               \<lparr>keys = [VK_MEDIA_PLAY_PAUSE], hasCTRL = False, hasSuper = False,
                  hasALTGR = False\<rparr>, [])])
   \<and> edgesOf
        (currentButtonValues
           (NewSerialIO\<lparr>lastKnownNumButtons := 4, currentButtonValues := [0, 1, 1, 0]\<rparr>))
        (buttonValues (''~0~0~1~1~'' @ CRLF))
      = [\<lparr>ButtonID = 3, PreviousValue = 0, ButtonValue = 1\<rparr>]
   \<and> pressedButton workingKeybd sampleConfig \<lparr>ButtonID = 3, PreviousValue = 0, ButtonValue = 1\<rparr>
      = Inr (\<lparr>keys = [VK_MEDIA_PLAY_PAUSE], hasCTRL = False, hasSuper = False,
                hasALTGR = False\<rparr>, [])"
proof -
  let ?sio = "NewSerialIO\<lparr>lastKnownNumButtons := 4, currentButtonValues := [0, 1, 1, 0]\<rparr>"
  let ?line = "''~0~0~1~1~'' @ CRLF"
  let ?ev = "\<lparr>ButtonID = 3, PreviousValue = 0, ButtonValue = 1\<rparr>"
  let ?kb = "\<lparr>keys = [VK_MEDIA_PLAY_PAUSE], hasCTRL = False, hasSuper = False, hasALTGR = False\<rparr>"
  let ?pr = "(?ev, ?kb, []) :: Pressed"
  have t: "buttonsTracked ?sio" by code_simp
  have m: "MatchString buttonLinePattern ?line" by code_simp
  have n: "length (buttonValues ?line) = lastKnownNumButtons ?sio" by code_simp
  have h: "handleLine sampleEps workingKeybd sampleConfig ?line ?sio
      = Inr (NewSerialIO\<lparr>lastKnownNumButtons := 4, currentButtonValues := [0, 0, 1, 1]\<rparr>, [],
             [(?ev, ?kb, [])])"
    by code_simp
  note inner = mp [OF conjunct1
      [OF trigger_called_on_rising_edges [OF t m, of sampleEps workingKeybd sampleConfig]] n]
  note returned = mp [OF spec [OF spec [OF spec [OF conjunct1 [OF inner]]]] h]
  have e0: "map fst [?pr] = edgesOf (currentButtonValues ?sio) (buttonValues ?line)"
    by (rule conjunct1 [OF returned])
  have p0: "map (\<lambda>(e, launched). Inr launched) [?pr]
          = map (pressedButton workingKeybd sampleConfig)
              (edgesOf (currentButtonValues ?sio) (buttonValues ?line))"
    by (rule conjunct1 [OF conjunct2 [OF returned]])
  from e0 have e: "edgesOf (currentButtonValues ?sio) (buttonValues ?line) = [?ev]"
    by simp
  from p0 have p: "pressedButton workingKeybd sampleConfig ?ev = Inr (snd ?pr)"
    unfolding e by simp
  show ?thesis using t m n h e p by simp
qed




subsection \<open>Slider frames\<close>

lemma sliderFields_nonempty: "sliderFields line \<noteq> []"
  by (simp add: sliderFields_def Split_nonempty)

lemma handleLine_slider:
  assumes "MatchString expectedLinePattern line"
  shows "handleLine eps kbd cfg line sio =
     (case sliderLoop eps cfg 0 (sliderFields line)
             (slidersCompared sio (length (sliderFields line))) [] of
        Inl p \<Rightarrow> Inl p
      | Inr (Ignored vals) \<Rightarrow>
          Inr (sio\<lparr>lastKnownNumSliders := length (sliderFields line),
                   currentSliderPercentValues := vals\<rparr>, [], [])
      | Inr (Scanned vals moveEvents) \<Rightarrow>
          Inr (sio\<lparr>lastKnownNumSliders := length (sliderFields line),
                   currentSliderPercentValues := vals,
                   sliderMoveConsumers :=
                     (if moveEvents \<noteq> []
                      then map (\<lambda>consumer. consumer @ moveEvents) (sliderMoveConsumers sio)
                      else sliderMoveConsumers sio)\<rparr>, moveEvents, []))"
  using assms expected_not_button [OF assms]
  by (auto simp: handleLine_def Let_def slidersCompared_def unset_def
           split: sum.splits scan.splits)

lemma sliderLoop_ignored:
  assumes "fs \<noteq> []" "fst (Atoi (hd fs)) > 1023"
  shows "sliderLoop eps cfg 0 fs vals [] = Inr (Ignored vals)"
  using assms by (cases fs) auto

lemma slidersCompared_length:
  "slidersTracked sio \<Longrightarrow> n \<noteq> 0 \<Longrightarrow> length (slidersCompared sio n) = n"
  by (auto simp: slidersCompared_def slidersTracked_def)

lemma not_different_from_itself:
  assumes "0 \<le> eps level"
  shows "\<not> SignificantlyDifferent eps (normalized cfg n) (normalized cfg n) level"
proof -
  have "normalized cfg n \<noteq> unset"
    using normalized_range [of cfg n] by (auto simp: unset_def)
  then show ?thesis using assms by (simp add: SignificantlyDifferent_def)
qed

lemma sliderLoop_settled:
  assumes len: "length vals = length fs"
    and first: "fs \<noteq> [] \<longrightarrow> fst (Atoi (hd fs)) \<le> 1023"
    and same: "\<forall>i < length fs. \<not> SignificantlyDifferent eps (vals ! i)
                 (normalized cfg (fst (Atoi (fs ! i)))) (NoiseReductionLevel cfg)"
  shows "sliderLoop eps cfg 0 fs vals [] = Inr (Scanned vals [])"
proof -
  let ?sd = "\<lambda>i. SignificantlyDifferent eps (vals ! i) (normalized cfg (fst (Atoi (fs ! i))))
                   (NoiseReductionLevel cfg)"
  have f: "filter ?sd [0..<length fs] = []"
    using same by (simp add: filter_empty_conv)
  have "map (\<lambda>i. if ?sd i then normalized cfg (fst (Atoi (fs ! i))) else vals ! i) [0..<length fs]
      = map (\<lambda>i. vals ! i) [0..<length fs]"
    by (rule map_cong) (use same in auto)
  also have "\<dots> = vals" using len map_nth [of vals] by simp
  finally have m: "map (\<lambda>i. if ?sd i then normalized cfg (fst (Atoi (fs ! i))) else vals ! i)
      [0..<length fs] = vals" .
  have "length fs \<le> length vals" using len by simp
  from sliderLoop_scanned [OF this first, of eps cfg]
  show ?thesis unfolding f m using len by simp
qed

text \<open>
  C5. Processing the same slider frame twice in a row is idempotent: the first call
  returns, and a second call on the state it left emits no slider event and leaves the
  state, the stored values among it, as it is. The noise threshold of the configured
  level is taken non-negative.
\<close>

theorem same_frame_twice_idempotent:
  assumes tracked: "slidersTracked sio" and match: "MatchString expectedLinePattern line"
    and eps: "0 \<le> eps (NoiseReductionLevel cfg)"
  shows "\<exists>sio1 moveEvents.
           handleLine eps kbd cfg line sio = Inr (sio1, moveEvents, [])
           \<and> handleLine eps kbd cfg line sio1 = Inr (sio1, [], [])"
proof -
  let ?fs = "sliderFields line"
  let ?n = "length ?fs"
  let ?vals = "slidersCompared sio ?n"
  let ?lvl = "NoiseReductionLevel cfg"
  let ?new = "\<lambda>i. normalized cfg (fst (Atoi (?fs ! i)))"
  have ne: "?fs \<noteq> []" by (rule sliderFields_nonempty)
  then have n0: "?n \<noteq> 0" by simp
  have len: "length ?vals = ?n" by (rule slidersCompared_length [OF tracked n0])
  show ?thesis
  proof (cases "fst (Atoi (hd ?fs)) > 1023")
    case True
    let ?sio1 = "sio\<lparr>lastKnownNumSliders := ?n, currentSliderPercentValues := ?vals\<rparr>"
    have one: "handleLine eps kbd cfg line sio = Inr (?sio1, [], [])"
      by (simp add: handleLine_slider [OF match] sliderLoop_ignored [OF ne True])
    have cmp: "slidersCompared ?sio1 ?n = ?vals" by (simp add: slidersCompared_def)
    have "handleLine eps kbd cfg line ?sio1 = Inr (?sio1, [], [])"
      by (simp add: handleLine_slider [OF match] cmp sliderLoop_ignored [OF ne True])
    with one show ?thesis by blast
  next
    case False
    then have first: "?fs \<noteq> [] \<longrightarrow> fst (Atoi (hd ?fs)) \<le> 1023" by simp
    let ?sd = "\<lambda>i. SignificantlyDifferent eps (?vals ! i) (?new i) ?lvl"
    let ?vals1 = "map (\<lambda>i. if ?sd i then ?new i else ?vals ! i) [0..<?n]"
    let ?evs = "map (\<lambda>i. \<lparr>SliderID = i, PercentValue = ?new i\<rparr>) (filter ?sd [0..<?n])"
    define consumers where "consumers =
        (if ?evs \<noteq> [] then map (\<lambda>consumer. consumer @ ?evs) (sliderMoveConsumers sio)
         else sliderMoveConsumers sio)"
    let ?sio1 = "sio\<lparr>lastKnownNumSliders := ?n, currentSliderPercentValues := ?vals1,
                     sliderMoveConsumers := consumers\<rparr>"
    have "length ?fs \<le> length ?vals" using len by simp
    from sliderLoop_scanned [OF this first, of eps cfg]
    have loop: "sliderLoop eps cfg 0 ?fs ?vals [] = Inr (Scanned ?vals1 ?evs)"
      using len by simp
    have one: "handleLine eps kbd cfg line sio = Inr (?sio1, ?evs, [])"
      by (simp only: handleLine_slider [OF match] loop sum.case scan.case consumers_def)
    have cmp: "slidersCompared ?sio1 ?n = ?vals1" by (simp add: slidersCompared_def)
    have nd: "\<not> SignificantlyDifferent eps (normalized cfg k) (normalized cfg k) ?lvl" for k
      by (rule not_different_from_itself [where eps = eps and level = ?lvl, OF eps])
    have settled: "\<forall>i < ?n. \<not> SignificantlyDifferent eps (?vals1 ! i) (?new i) ?lvl"
      by (auto simp: nd)
    have len1: "length ?vals1 = ?n" by simp
    have loop2: "sliderLoop eps cfg 0 ?fs ?vals1 [] = Inr (Scanned ?vals1 [])"
      by (rule sliderLoop_settled [OF len1 first settled])
    have "handleLine eps kbd cfg line ?sio1 = Inr (?sio1, [], [])"
      by (simp add: handleLine_slider [OF match] cmp loop2 del: upt_Suc)
    with one show ?thesis by blast
  qed
qed

text \<open>
  An instance: the frame \<^verbatim>\<open>512|1023|0\<close> twice from the initial state.
\<close>

theorem same_frame_twice_idempotent_witness:
  "slidersTracked NewSerialIO
   \<and> MatchString expectedLinePattern (''512|1023|0'' @ CRLF)
   \<and> 0 \<le> sampleEps (NoiseReductionLevel sampleConfig)
   \<and> (\<exists>sio1 moveEvents.
         handleLine sampleEps workingKeybd sampleConfig (''512|1023|0'' @ CRLF) NewSerialIO
           = Inr (sio1, moveEvents, [])
         \<and> handleLine sampleEps workingKeybd sampleConfig (''512|1023|0'' @ CRLF) sio1
           = Inr (sio1, [], []))"
proof -
  have t: "slidersTracked NewSerialIO" by code_simp
  have m: "MatchString expectedLinePattern (''512|1023|0'' @ CRLF)" by code_simp
  have e: "0 \<le> sampleEps (NoiseReductionLevel sampleConfig)" by code_simp
  show ?thesis
    using t m e
      same_frame_twice_idempotent [where eps = sampleEps and cfg = sampleConfig
        and kbd = workingKeybd, OF t m e]
    by blast
qed

lemma different_from_unset: "SignificantlyDifferent eps unset new level"
  by (simp add: SignificantlyDifferent_def)

text \<open>
  C4. When the channel count N of a well-formed slider frame (every raw value at most
  1023) differs from the remembered count, the frame is handled as from the state with N
  remembered and every channel unset: N is remembered, exactly N events are emitted, one per
  channel in channel order with the normalized value of the frame, these values are the
  stored ones afterwards, and every subscriber is sent the N events.
\<close>

theorem channel_count_change_resyncs:
  assumes match: "MatchString expectedLinePattern line"
    and differs: "length (sliderValues line) \<noteq> lastKnownNumSliders sio"
    and wellformed: "\<forall>v \<in> set (sliderValues line). v \<le> 1023"
  shows "\<exists>sio' moveEvents.
           handleLine eps kbd cfg line sio = Inr (sio', moveEvents, [])
           \<and> handleLine eps kbd cfg line
                (sio\<lparr>lastKnownNumSliders := length (sliderValues line),
                     currentSliderPercentValues := replicate (length (sliderValues line)) unset\<rparr>)
              = Inr (sio', moveEvents, [])
           \<and> length moveEvents = length (sliderValues line)
           \<and> moveEvents = map (\<lambda>i. \<lparr>SliderID = i,
                                       PercentValue = normalized cfg (sliderValues line ! i)\<rparr>)
                             [0..<length (sliderValues line)]
           \<and> lastKnownNumSliders sio' = length (sliderValues line)
           \<and> currentSliderPercentValues sio' = map (normalized cfg) (sliderValues line)
           \<and> sliderMoveConsumers sio'
              = map (\<lambda>consumer. consumer @ moveEvents) (sliderMoveConsumers sio)"
proof -
  let ?fs = "sliderFields line"
  let ?n = "length ?fs"
  let ?new = "\<lambda>i. normalized cfg (fst (Atoi (?fs ! i)))"
  let ?vals = "replicate ?n unset"
  let ?reset = "sio\<lparr>lastKnownNumSliders := ?n, currentSliderPercentValues := ?vals\<rparr>"
  let ?evs = "map (\<lambda>i. \<lparr>SliderID = i, PercentValue = normalized cfg (sliderValues line ! i)\<rparr>) [0..<?n]"
  have n: "length (sliderValues line) = ?n" by (simp add: sliderValues_def)
  have ne: "?fs \<noteq> []" by (rule sliderFields_nonempty)
  have "fst (Atoi (hd ?fs)) \<in> set (sliderValues line)"
    using ne by (cases ?fs) (auto simp: sliderValues_def)
  then have first: "?fs \<noteq> [] \<longrightarrow> fst (Atoi (hd ?fs)) \<le> 1023"
    using wellformed by blast
  have cmp: "slidersCompared sio ?n = ?vals"
    using differs by (simp add: slidersCompared_def n)
  have cmp': "slidersCompared ?reset ?n = ?vals"
    by (simp add: slidersCompared_def)
  let ?sd = "\<lambda>i. SignificantlyDifferent eps (?vals ! i) (?new i) (NoiseReductionLevel cfg)"
  have all: "filter ?sd [0..<?n] = [0..<?n]"
    by (simp add: filter_id_conv different_from_unset)
  have vs: "map (\<lambda>i. if ?sd i then ?new i else ?vals ! i) [0..<?n] = map (normalized cfg) (sliderValues line)"
    by (rule nth_equalityI) (simp_all add: sliderValues_def different_from_unset)
  have es: "map (\<lambda>i. \<lparr>SliderID = i, PercentValue = ?new i\<rparr>) [0..<?n] = ?evs"
    by (rule map_cong) (simp_all add: sliderValues_def)
  have "?n \<le> length ?vals" by simp
  from sliderLoop_scanned [OF this first, of eps cfg]
  have loop: "sliderLoop eps cfg 0 ?fs ?vals [] =
      Inr (Scanned (map (normalized cfg) (sliderValues line)) ?evs)"
    unfolding all vs es by simp
  have nonempty: "?evs \<noteq> []" using ne by simp
  let ?sio' = "sio\<lparr>lastKnownNumSliders := ?n,
                    currentSliderPercentValues := map (normalized cfg) (sliderValues line),
                    sliderMoveConsumers := map (\<lambda>consumer. consumer @ ?evs) (sliderMoveConsumers sio)\<rparr>"
  have one: "handleLine eps kbd cfg line sio = Inr (?sio', ?evs, [])"
    using nonempty by (simp only: handleLine_slider [OF match] cmp loop sum.case scan.case if_True not_False_eq_True)
  have two: "handleLine eps kbd cfg line ?reset = Inr (?sio', ?evs, [])"
    using nonempty
    by (simp only: handleLine_slider [OF match] cmp' loop sum.case scan.case if_True not_False_eq_True) simp
  show ?thesis
    unfolding n using one two by (intro exI [of _ ?sio'] exI [of _ ?evs]) simp
qed

text \<open>
  An instance: an established two-channel state and the four-channel frame
  \<^verbatim>\<open>0|1023|512|256\<close>.
\<close>

theorem channel_count_change_resyncs_witness:
  "MatchString expectedLinePattern (''0|1023|512|256'' @ CRLF)
   \<and> length (sliderValues (''0|1023|512|256'' @ CRLF))
       \<noteq> lastKnownNumSliders
            (NewSerialIO\<lparr>lastKnownNumSliders := 2, currentSliderPercentValues := [1 / 2, 1]\<rparr>)
   \<and> sliderValues (''0|1023|512|256'' @ CRLF) = [0, 1023, 512, 256]
   \<and> (\<exists>sio' moveEvents.
         handleLine sampleEps workingKeybd sampleConfig (''0|1023|512|256'' @ CRLF)
           (NewSerialIO\<lparr>lastKnownNumSliders := 2, currentSliderPercentValues := [1 / 2, 1]\<rparr>)
           = Inr (sio', moveEvents, [])
         \<and> length moveEvents = 4
         \<and> lastKnownNumSliders sio' = 4)"
proof -
  let ?line = "''0|1023|512|256'' @ CRLF"
  let ?sio = "NewSerialIO\<lparr>lastKnownNumSliders := 2, currentSliderPercentValues := [1 / 2, 1]\<rparr>"
  have m: "MatchString expectedLinePattern ?line" by code_simp
  have v: "sliderValues ?line = [0, 1023, 512, 256]" by code_simp
  have d: "length (sliderValues ?line) \<noteq> lastKnownNumSliders ?sio"
    unfolding v by (simp add: NewSerialIO_def)
  have w: "\<forall>v \<in> set (sliderValues ?line). v \<le> 1023"
    unfolding v by simp
  have four: "length (sliderValues ?line) = 4" unfolding v by simp
  from channel_count_change_resyncs [OF m d w, of sampleEps workingKeybd sampleConfig]
  have "\<exists>sio' moveEvents.
         handleLine sampleEps workingKeybd sampleConfig ?line ?sio = Inr (sio', moveEvents, [])
         \<and> length moveEvents = 4 \<and> lastKnownNumSliders sio' = 4"
    unfolding four by blast
  then show ?thesis using m d v by blast
qed


lemma ok_update:
  "list_all P vals \<Longrightarrow> P x \<Longrightarrow> list_all P (vals[i := x])"
  using set_update_subset_insert [of vals i x] by (auto simp: list_all_iff)

lemma sliderLoop_in_range:
  assumes "list_all (\<lambda>v. v = unset \<or> (0 \<le> v \<and> v \<le> 1)) vals"
    and "sliderLoop eps cfg i fs vals evs = Inr r"
  shows "list_all (\<lambda>v. v = unset \<or> (0 \<le> v \<and> v \<le> 1))
           (case r of Ignored v \<Rightarrow> v | Scanned v e \<Rightarrow> v)"
  using assms
proof (induction fs arbitrary: i vals evs)
  case Nil
  then show ?case by auto
next
  case (Cons f fs)
  let ?x = "normalized cfg (fst (Atoi f))"
  have x: "?x = unset \<or> (0 \<le> ?x \<and> ?x \<le> 1)"
    using normalized_range [of cfg "fst (Atoi f)"] by simp
  have upd: "list_all (\<lambda>v. v = unset \<or> (0 \<le> v \<and> v \<le> 1)) (vals[i := ?x])"
    by (rule ok_update [OF Cons.prems(1) x])
  show ?case
  proof (cases "i = 0 \<and> fst (Atoi f) > 1023")
    case True
    then show ?thesis using Cons.prems by auto
  next
    case False
    then show ?thesis
      using Cons.prems Cons.IH [OF upd] Cons.IH [OF Cons.prems(1)]
      by (auto simp: Let_def split: if_splits)
  qed
qed

lemma handleButtons_keeps_sliders:
  "handleButtons kbd cfg line sio = Inr (sio', pressed) \<Longrightarrow>
   currentSliderPercentValues sio' = currentSliderPercentValues sio"
  by (auto simp: handleButtons_def Let_def split: sum.splits scan.splits if_splits)

lemma handleLine_in_range:
  assumes "sliderValuesInRange sio" and "handleLine eps kbd cfg line sio = Inr (sio', out)"
  shows "sliderValuesInRange sio'"
proof (cases "MatchString buttonLinePattern line")
  case True
  then show ?thesis
    using assms handleButtons_keeps_sliders [of kbd cfg line sio sio']
    by (auto simp: handleLine_def sliderValuesInRange_def split: sum.splits)
next
  case False
  show ?thesis
  proof (cases "MatchString expectedLinePattern line")
    case nomatch: False
    then show ?thesis using assms False by (simp add: handleLine_def)
  next
    case match: True
    let ?cmp = "slidersCompared sio (length (sliderFields line))"
    have cmp: "list_all (\<lambda>v. v = unset \<or> (0 \<le> v \<and> v \<le> 1)) ?cmp"
      using assms(1) by (simp add: slidersCompared_def sliderValuesInRange_def list_all_iff)
    obtain r where r: "sliderLoop eps cfg 0 (sliderFields line) ?cmp [] = Inr r"
      using assms(2) by (cases "sliderLoop eps cfg 0 (sliderFields line) ?cmp []")
        (simp_all add: handleLine_slider [OF match])
    from sliderLoop_in_range [OF cmp r] assms(2) show ?thesis
      by (cases r) (auto simp: handleLine_slider [OF match] r sliderValuesInRange_def)
  qed
qed

text \<open>
  C10. Every entry of the stored slider values is the unset sentinel \<open>-1\<close> or a value in
  [0, 1]: the property holds in the initial state, and it holds after any sequence of
  \<^verbatim>\<open>handleLine\<close> calls from a state in which it holds.
\<close>

theorem stored_slider_values_in_range:
  "sliderValuesInRange NewSerialIO
   \<and> (sliderValuesInRange sio \<and> handleLines eps kbd cfg lines sio = Inr sio'
        \<longrightarrow> sliderValuesInRange sio')"
proof -
  have init: "sliderValuesInRange NewSerialIO"
    by (simp add: sliderValuesInRange_def NewSerialIO_def)
  have step: "sliderValuesInRange sio \<Longrightarrow> handleLines eps kbd cfg lines sio = Inr sio'
      \<Longrightarrow> sliderValuesInRange sio'"
  proof (induction lines arbitrary: sio)
    case Nil
    then show ?case by simp
  next
    case (Cons line lines)
    from Cons.prems(2) obtain sio1 out where
      one: "handleLine eps kbd cfg line sio = Inr (sio1, out)"
      and rest: "handleLines eps kbd cfg lines sio1 = Inr sio'"
      by (auto split: sum.splits)
    from handleLine_in_range [OF Cons.prems(1) one] have "sliderValuesInRange sio1" .
    then show ?case using rest by (rule Cons.IH)
  qed
  show ?thesis using init step by blast
qed

text \<open>
  An instance: three lines from the initial state, with a raw value above 1023 in a later
  field and a button frame between the slider frames.
\<close>

theorem stored_slider_values_in_range_witness:
  "sliderValuesInRange NewSerialIO
   \<and> handleLines sampleEps workingKeybd sampleConfig
        [''512|9999'' @ CRLF, ''~1~'' @ CRLF, ''7|300'' @ CRLF] NewSerialIO
      = Inr (NewSerialIO\<lparr>lastKnownNumSliders := 2,
                          currentSliderPercentValues := [99 / 100, 71 / 100],
                          lastKnownNumButtons := 1, currentButtonValues := [1]\<rparr>)
   \<and> sliderValuesInRange (NewSerialIO\<lparr>lastKnownNumSliders := 2,
                          currentSliderPercentValues := [99 / 100, 71 / 100],
                          lastKnownNumButtons := 1, currentButtonValues := [1]\<rparr>)"
proof -
  have run: "handleLines sampleEps workingKeybd sampleConfig
        [''512|9999'' @ CRLF, ''~1~'' @ CRLF, ''7|300'' @ CRLF] NewSerialIO
      = Inr (NewSerialIO\<lparr>lastKnownNumSliders := 2,
                          currentSliderPercentValues := [99 / 100, 71 / 100],
                          lastKnownNumButtons := 1, currentButtonValues := [1]\<rparr>)"
    by code_simp
  show ?thesis
    using run stored_slider_values_in_range [where eps = sampleEps and kbd = workingKeybd
        and cfg = sampleConfig
        and lines = "[''512|9999'' @ CRLF, ''~1~'' @ CRLF, ''7|300'' @ CRLF]"
        and sio = NewSerialIO
        and sio' = "NewSerialIO\<lparr>lastKnownNumSliders := 2,
                          currentSliderPercentValues := [99 / 100, 71 / 100],
                          lastKnownNumButtons := 1, currentButtonValues := [1]\<rparr>"]
    by blast
qed

subsection \<open>Configuration reload\<close>













end
